theory Spec2Isabelle
  imports Complex_Main "HOL-Library.Log_Nat" "HOL-Library.Word"
begin

section \<open>Python values used by zip-sizer\<close>

subsection \<open>Floats\<close>

text \<open>
  A Python float is an IEEE-754 binary64 number. Its value is kept as a rational, and every
  float operation is the exact operation followed by \<open>fl_round\<close>: rounding to 53
  significant bits, ties to even. The exponent range is not bounded: the quantities of this
  program are byte counts, a ratio in \<open>(0, 1]\<close> and their products and quotients, far from
  overflow and underflow. Only finite values are represented, not the infinities and NaN
  that \<open>float\<close> also parses.
\<close>

definition ilog2 :: "rat \<Rightarrow> int" where
  \<comment> \<open>for \<open>0 < x\<close>: the exponent \<open>e\<close> with \<open>2 ^ e \<le> x < 2 ^ (e + 1)\<close>\<close>
  "ilog2 x = (if 1 \<le> x then bitlen \<lfloor>x\<rfloor> - 1
              else - bitlen (\<lceil>1 / x\<rceil> - 1))"

definition rne :: "rat \<Rightarrow> int" where
  \<comment> \<open>nearest integer, a tie goes to the even one\<close>
  "rne y = (let f = \<lfloor>y\<rfloor>; d = y - of_int f in
     if d < 1 / 2 then f else if 1 / 2 < d then f + 1 else if even f then f else f + 1)"

definition ulp :: "rat \<Rightarrow> rat" where
  \<comment> \<open>the spacing of the doubles in the binade of \<open>x\<close>\<close>
  "ulp x = 2 powi (ilog2 \<bar>x\<bar> - 52)"

definition fl_round :: "rat \<Rightarrow> rat" where
  "fl_round x = (if x = 0 then 0 else of_int (rne (x / ulp x)) * ulp x)"

datatype py_error = ZeroDivisionError

definition float_of_nat :: "nat \<Rightarrow> rat" where
  \<comment> \<open>\<open>float(n)\<close>, also the implicit conversion of an int operand\<close>
  "float_of_nat n = fl_round (of_nat n)"

definition fmul :: "rat \<Rightarrow> rat \<Rightarrow> rat" where
  "fmul x y = fl_round (x * y)"

definition fdiv :: "rat \<Rightarrow> rat \<Rightarrow> py_error + rat" where
  "fdiv x y = (if y = 0 then Inl ZeroDivisionError else Inr (fl_round (x / y)))"

definition py_int :: "rat \<Rightarrow> int" where
  \<comment> \<open>\<open>int(x)\<close> of a float: truncation toward zero\<close>
  "py_int x = (if 0 \<le> x then \<lfloor>x\<rfloor> else \<lceil>x\<rceil>)"

subsection \<open>The range builtin\<close>

definition py_range :: "nat \<Rightarrow> nat \<Rightarrow> nat \<Rightarrow> nat list" where
  \<comment> \<open>\<open>list(range(start, stop, step))\<close> for a positive step\<close>
  "py_range start stop step =
     map (\<lambda>k. start + k * step)
       [0..<(if start < stop then (stop - start - 1) div step + 1 else 0)]"

subsection \<open>Files\<close>

text \<open>
  The file system is a function from paths to files. A file can be opened or not; a read of
  an open file returns the bytes at the position sought, fewer at the end of the file, or
  raises when it covers a byte that cannot be read. The size listed in the inventory and
  the length of the contents at read time are independent.
\<close>

type_synonym byte = "8 word"
type_synonym bytes = "byte list"

datatype read_error = FileNotFoundError | PermissionError | IsADirectoryError | OSError

datatype disk_file =
    Regular bytes
  | Unopenable read_error
  | Damaged bytes nat read_error

type_synonym filesystem = "string \<Rightarrow> disk_file"

fun contents :: "disk_file \<Rightarrow> bytes" where
  "contents (Regular c) = c"
| "contents (Unopenable e) = []"
| "contents (Damaged c k e) = c"

fun py_open :: "disk_file \<Rightarrow> read_error + disk_file" where
  "py_open (Unopenable e) = Inl e"
| "py_open f = Inr f"

fun seek_read :: "disk_file \<Rightarrow> nat \<Rightarrow> nat \<Rightarrow> read_error + bytes" where
  \<comment> \<open>\<open>f.seek(off)\<close> followed by \<open>f.read(n)\<close>\<close>
  "seek_read (Regular c) off n = Inr (take n (drop off c))"
| "seek_read (Damaged c k e) off n =
     (if off \<le> k \<and> k < off + n \<and> k < length c then Inl e else Inr (take n (drop off c)))"
| "seek_read (Unopenable e) off n = Inl e"

section \<open>zip-sizer.py\<close>

definition CHUNKSIZE :: nat where
  "CHUNKSIZE = 10 * 1024 * 1024"

datatype algorithm = Gzip | Bzip2

record args =
  algorithm :: algorithm
  level :: int
  sampling_ratio :: rat
  verbose :: bool

text \<open>
  The gzip and bz2 modules are outside the program: \<open>compress alg level data\<close> stands for
  \<open>gzip.compress\<close> or \<open>bz2.compress\<close> at that level.
\<close>

type_synonym compressor = "algorithm \<Rightarrow> int \<Rightarrow> bytes \<Rightarrow> bytes"

text \<open>The lines printed to standard output, with the numbers they show.\<close>

datatype printed =
    Total_files nat
  | Total_size nat
  | Sampling_info nat nat
  | Compressed_sample_size nat
  | Original_sample_size nat
  | Rule
  | Original_size nat
  | Estimated_compressed_size rat
  | Compression_ratio rat

fun is_diagnostic :: "printed \<Rightarrow> bool" where
  "is_diagnostic (Total_files n) = True"
| "is_diagnostic (Total_size n) = True"
| "is_diagnostic (Sampling_info s c) = True"
| "is_diagnostic (Compressed_sample_size n) = True"
| "is_diagnostic (Original_sample_size n) = True"
| "is_diagnostic x = False"

definition valid_sampling_ratio :: "rat \<Rightarrow> bool" where
  \<comment> \<open>the check of the main block: exit when \<open>ratio <= 0 or ratio > 1\<close>\<close>
  "valid_sampling_ratio r = (\<not> (r \<le> 0 \<or> r > 1))"

definition sample_size :: "rat \<Rightarrow> nat" where
  \<comment> \<open>\<open>int(args.sampling_ratio * CHUNKSIZE)\<close>\<close>
  "sample_size r = nat (py_int (fmul r (float_of_nat CHUNKSIZE)))"

definition default_sampling_ratio :: rat where
  \<comment> \<open>the default \<open>0.1\<close> of \<open>--sampling-ratio\<close>: the double nearest to one tenth\<close>
  "default_sampling_ratio = fl_round (1 / 10)"

subsection \<open>sample_data\<close>

text \<open>
  The variables of the loop, together with what the loop does to the outside: the warnings
  it logs and the reads it performs (path and offset sought).
\<close>

record sampler =
  sampled_data :: bytes
  sampling_points :: "nat list"
  current_offset :: nat
  warnings :: "(string \<times> read_error) list"
  reads :: "(string \<times> nat) list"

text \<open>
  The \<open>while\<close> loop over the open file. An exception leaves the loop with what has been
  appended and popped so far.
\<close>

fun read_windows ::
  "disk_file \<Rightarrow> string \<Rightarrow> nat \<Rightarrow> nat \<Rightarrow> nat \<Rightarrow> bytes \<Rightarrow> (string \<times> nat) list \<Rightarrow> nat list
    \<Rightarrow> bytes \<times> (string \<times> nat) list \<times> nat list \<times> read_error option" where
  "read_windows f filepath ss cur filesize data rds [] = (data, rds, [], None)"
| "read_windows f filepath ss cur filesize data rds (p # ps) =
     (if cur + filesize > p then
        (let relative_offset = p - cur in
         case seek_read f relative_offset ss of
           Inl e \<Rightarrow> (data, rds, p # ps, Some e)
         | Inr chunk \<Rightarrow>
             read_windows f filepath ss cur filesize (data @ chunk)
               (rds @ [(filepath, relative_offset)]) ps)
      else (data, rds, p # ps, None))"

text \<open>
  The body of the \<open>for\<close> loop. Every \<open>except\<close> clause logs a warning and continues, so
  the statement \<open>current_offset += filesize\<close> after the \<open>with\<close> block is not reached.
\<close>

definition process_file :: "filesystem \<Rightarrow> nat \<Rightarrow> sampler \<Rightarrow> string \<times> nat \<Rightarrow> sampler" where
  "process_file fs ss st entry =
     (let filepath = fst entry; filesize = snd entry in
      case sampling_points st of
        [] \<Rightarrow> st\<lparr>current_offset := current_offset st + filesize\<rparr>
      | p # ps \<Rightarrow>
          if p \<ge> current_offset st + filesize
          then st\<lparr>current_offset := current_offset st + filesize\<rparr>
          else
            (case py_open (fs filepath) of
               Inl e \<Rightarrow> st\<lparr>warnings := warnings st @ [(filepath, e)]\<rparr>
             | Inr f \<Rightarrow>
                 (case read_windows f filepath ss (current_offset st) filesize
                         (sampled_data st) (reads st) (sampling_points st) of
                    (data, rds, points, Some e) \<Rightarrow>
                      st\<lparr>sampled_data := data, sampling_points := points, reads := rds,
                         warnings := warnings st @ [(filepath, e)]\<rparr>
                  | (data, rds, points, None) \<Rightarrow>
                      st\<lparr>sampled_data := data, sampling_points := points, reads := rds,
                         current_offset := current_offset st + filesize\<rparr>)))"

definition walk :: "filesystem \<Rightarrow> nat \<Rightarrow> sampler \<Rightarrow> (string \<times> nat) list \<Rightarrow> sampler" where
  \<comment> \<open>the \<open>for\<close> loop over the inventory\<close>
  "walk fs ss st files_with_sizes = foldl (process_file fs ss) st files_with_sizes"

definition total_size :: "(string \<times> nat) list \<Rightarrow> nat" where
  "total_size files_with_sizes = sum_list (map snd files_with_sizes)"

text \<open>
  The main block calls \<open>main\<close> only with a sampling ratio that passed its check; the sample
  size is then at most \<open>CHUNKSIZE\<close> and the first sampling point is not negative.
\<close>

definition plan :: "nat \<Rightarrow> (string \<times> nat) list \<Rightarrow> nat list" where
  \<comment> \<open>\<open>list(range(CHUNKSIZE - sample_size, total_size, CHUNKSIZE))\<close>\<close>
  "plan ss files_with_sizes = py_range (CHUNKSIZE - ss) (total_size files_with_sizes) CHUNKSIZE"

definition start :: "nat \<Rightarrow> (string \<times> nat) list \<Rightarrow> sampler" where
  \<comment> \<open>the variables when the \<open>for\<close> loop is entered\<close>
  "start ss files_with_sizes =
     \<lparr>sampled_data = [], sampling_points = plan ss files_with_sizes, current_offset = 0,
      warnings = [], reads = []\<rparr>"

definition sample_data :: "args \<Rightarrow> filesystem \<Rightarrow> (string \<times> nat) list \<Rightarrow> printed list \<times> sampler" where
  \<comment> \<open>what is printed, and the variables at the \<open>return\<close>, of which \<open>sampled_data\<close> is returned\<close>
  "sample_data a fs files_with_sizes =
     (let ss = sample_size (sampling_ratio a) in
      ((if verbose a
        then [Total_files (length files_with_sizes), Total_size (total_size files_with_sizes)]
        else [])
       @ (if verbose a then [Sampling_info ss CHUNKSIZE] else []),
       walk fs ss (start ss files_with_sizes) files_with_sizes))"

text \<open>
  The variables when the loop reaches the file of index \<open>i\<close>, and the sampling points and
  bytes that the visit of that file takes.
\<close>

definition before :: "filesystem \<Rightarrow> nat \<Rightarrow> (string \<times> nat) list \<Rightarrow> nat \<Rightarrow> sampler" where
  "before fs ss files_with_sizes i =
     walk fs ss (start ss files_with_sizes) (take i files_with_sizes)"

definition consumed :: "filesystem \<Rightarrow> nat \<Rightarrow> (string \<times> nat) list \<Rightarrow> nat \<Rightarrow> nat list" where
  "consumed fs ss files_with_sizes i =
     (let ps = sampling_points (before fs ss files_with_sizes i);
          ps' = sampling_points (before fs ss files_with_sizes (Suc i))
      in take (length ps - length ps') ps)"

definition bytes_read :: "filesystem \<Rightarrow> nat \<Rightarrow> (string \<times> nat) list \<Rightarrow> nat \<Rightarrow> bytes" where
  "bytes_read fs ss files_with_sizes i =
     drop (length (sampled_data (before fs ss files_with_sizes i)))
       (sampled_data (before fs ss files_with_sizes (Suc i)))"

subsection \<open>compress_sampled_data and main\<close>

definition compress_sampled_data :: "compressor \<Rightarrow> args \<Rightarrow> bytes \<Rightarrow> printed list \<times> nat" where
  "compress_sampled_data compress a data =
     (let compressed_data = compress (algorithm a) (level a) data in
      ((if verbose a
        then [Compressed_sample_size (length compressed_data), Original_sample_size (length data)]
        else []),
       length compressed_data))"

definition estimate :: "nat \<Rightarrow> nat \<Rightarrow> nat \<Rightarrow> py_error + rat" where
  \<comment> \<open>\<open>(float(compressed_size) / len(sampled_data)) * original_size if original_size > 0 else 0\<close>\<close>
  "estimate compressed_size sample_len original_size =
     (if original_size > 0 then
        (case fdiv (float_of_nat compressed_size) (float_of_nat sample_len) of
           Inl e \<Rightarrow> Inl e
         | Inr q \<Rightarrow> Inr (fmul q (float_of_nat original_size)))
      else Inr 0)"

definition ratio :: "nat \<Rightarrow> rat \<Rightarrow> py_error + rat" where
  \<comment> \<open>\<open>original_size / compressed_size\<close>\<close>
  "ratio original_size compressed_size = fdiv (float_of_nat original_size) compressed_size"

text \<open>
  \<open>main\<close> from the inventory that \<open>list_files_with_sizes\<close> returned: what it prints, and
  the exception that ends it, if any.
\<close>

definition main ::
  "compressor \<Rightarrow> args \<Rightarrow> filesystem \<Rightarrow> (string \<times> nat) list \<Rightarrow> printed list \<times> py_error option" where
  "main compress a fs files_with_sizes =
     (case sample_data a fs files_with_sizes of (out1, st) \<Rightarrow>
       (case compress_sampled_data compress a (sampled_data st) of (out2, compressed_size) \<Rightarrow>
         (let original_size = total_size files_with_sizes in
           (case estimate compressed_size (length (sampled_data st)) original_size of
              Inl e \<Rightarrow> (out1 @ out2, Some e)
            | Inr est \<Rightarrow>
                (case ratio original_size est of
                   Inl e \<Rightarrow>
                     (out1 @ out2 @
                        [Rule, Original_size original_size, Estimated_compressed_size est],
                      Some e)
                 | Inr r \<Rightarrow>
                     (out1 @ out2 @
                        [Rule, Original_size original_size, Estimated_compressed_size est,
                         Compression_ratio r, Rule],
                      None))))))"

definition default_args :: args where
  \<comment> \<open>the defaults of the argument parser\<close>
  "default_args =
     \<lparr>algorithm = Gzip, level = 9, sampling_ratio = default_sampling_ratio, verbose = False\<rparr>"

text \<open>
  The extrapolation as the specification writes it,
  \<open>estimated_total = (compressed_len / sample_len) * original_size\<close> and
  \<open>compression_ratio = original_size / estimated_total\<close>, in float arithmetic.
\<close>

definition spec_estimated_total :: "nat \<Rightarrow> nat \<Rightarrow> nat \<Rightarrow> rat" where
  "spec_estimated_total compressed_len sample_len original_size =
     fmul (fl_round (float_of_nat compressed_len / float_of_nat sample_len))
       (float_of_nat original_size)"

definition spec_compression_ratio :: "nat \<Rightarrow> rat \<Rightarrow> rat" where
  "spec_compression_ratio original_size estimated_total =
     fl_round (float_of_nat original_size / estimated_total)"

section \<open>estimate-compression.py\<close>

text \<open>
  The first version of the sampler: the same loop with no \<open>try\<close>, so that an exception
  ends \<open>sample_data\<close>.
\<close>

fun read_windows_ec ::
  "disk_file \<Rightarrow> nat \<Rightarrow> nat \<Rightarrow> nat \<Rightarrow> bytes \<Rightarrow> nat list \<Rightarrow> read_error + bytes \<times> nat list" where
  "read_windows_ec f sample_sz cur filesize data [] = Inr (data, [])"
| "read_windows_ec f sample_sz cur filesize data (p # ps) =
     (if cur + filesize > p then
        (case seek_read f (p - cur) sample_sz of
           Inl e \<Rightarrow> Inl e
         | Inr chunk \<Rightarrow> read_windows_ec f sample_sz cur filesize (data @ chunk) ps)
      else Inr (data, p # ps))"

fun walk_ec ::
  "filesystem \<Rightarrow> nat \<Rightarrow> bytes \<Rightarrow> nat list \<Rightarrow> nat \<Rightarrow> (string \<times> nat) list \<Rightarrow> read_error + bytes" where
  "walk_ec fs sample_sz data points cur [] = Inr data"
| "walk_ec fs sample_sz data points cur ((filepath, filesize) # rest) =
     (case points of
        [] \<Rightarrow> walk_ec fs sample_sz data points (cur + filesize) rest
      | p # ps \<Rightarrow>
          if p \<ge> cur + filesize then walk_ec fs sample_sz data points (cur + filesize) rest
          else
            (case py_open (fs filepath) of
               Inl e \<Rightarrow> Inl e
             | Inr f \<Rightarrow>
                 (case read_windows_ec f sample_sz cur filesize data points of
                    Inl e \<Rightarrow> Inl e
                  | Inr (data', points') \<Rightarrow>
                      walk_ec fs sample_sz data' points' (cur + filesize) rest)))"

definition sample_data_ec ::
  "filesystem \<Rightarrow> (string \<times> nat) list \<Rightarrow> nat \<Rightarrow> nat \<Rightarrow> read_error + bytes" where
  \<comment> \<open>for \<open>0 < chunk_size\<close> and \<open>sample_sz \<le> chunk_size\<close>, as the defaults are\<close>
  "sample_data_ec fs files_with_sizes chunk_size sample_sz =
     walk_ec fs sample_sz []
       (py_range (chunk_size - sample_sz) (total_size files_with_sizes) chunk_size)
       0 files_with_sizes"

definition default_chunk_size :: nat where
  "default_chunk_size = 10 * 1024 * 1024"

definition default_sample_size :: nat where
  "default_sample_size = 1 * 1024 * 1024"

section \<open>Float rounding\<close>

lemma rne_le_int: "y \<le> of_int N \<Longrightarrow> rne y \<le> N"
proof -
  assume a: "y \<le> of_int N"
  show ?thesis
  proof (cases "y = of_int N")
    case True
    then show ?thesis by (simp add: rne_def)
  next
    case False
    with a have "y < of_int N" by simp
    then have "\<lfloor>y\<rfloor> < N" by (simp add: floor_less_iff)
    then show ?thesis by (simp add: rne_def Let_def)
  qed
qed

lemma rne_ge_int: "of_int N \<le> y \<Longrightarrow> N \<le> rne y"
proof -
  assume "of_int N \<le> y"
  then have "N \<le> \<lfloor>y\<rfloor>" by (simp add: le_floor_iff)
  then show ?thesis by (simp add: rne_def Let_def)
qed

lemma ilog2_lower: assumes "0 < x" shows "2 powi (ilog2 x) \<le> x"
proof (cases "1 \<le> x")
  case True
  then have p: "0 < \<lfloor>x\<rfloor>" by linarith
  from bitlen_bounds[OF p] have b: "2 ^ nat (bitlen \<lfloor>x\<rfloor> - 1) \<le> \<lfloor>x\<rfloor>" by simp
  have "1 \<le> bitlen \<lfloor>x\<rfloor>" using p by (simp add: bitlen_ge_iff_power)
  then have "(2::rat) powi (bitlen \<lfloor>x\<rfloor> - 1) = 2 ^ nat (bitlen \<lfloor>x\<rfloor> - 1)"
    by (simp add: power_int_def)
  also have "\<dots> = of_int (2 ^ nat (bitlen \<lfloor>x\<rfloor> - 1))" by simp
  also have "\<dots> \<le> of_int \<lfloor>x\<rfloor>" using b by (simp only: of_int_le_iff)
  also have "\<dots> \<le> x" by simp
  finally show ?thesis using True by (simp add: ilog2_def)
next
  case False
  define n where "n = \<lceil>1 / x\<rceil> - 1"
  define L where "L = nat (bitlen n)"
  from False assms have "1 < 1 / x" by simp
  then have "1 < \<lceil>1 / x\<rceil>" by (simp add: less_ceiling_iff)
  then have p: "0 < n" by (simp add: n_def)
  from bitlen_bounds[OF p] have "n < 2 ^ L" by (simp add: L_def)
  then have "\<lceil>1 / x\<rceil> \<le> 2 ^ L" by (simp add: n_def)
  then have "1 / x \<le> of_int (2 ^ L)" by (simp only: ceiling_le_iff)
  then have "1 / x \<le> 2 ^ L" by simp
  then have "1 \<le> 2 ^ L * x" using assms by (simp add: field_simps)
  then have "inverse (2 ^ L) \<le> x" by (simp add: field_simps)
  moreover have "0 \<le> bitlen n" by (simp add: bitlen_def)
  then have "(2::rat) powi (bitlen n) = 2 ^ L"
    by (simp add: power_int_def L_def)
  then have "(2::rat) powi (- bitlen n) = inverse (2 ^ L)"
    by (simp add: power_int_minus)
  ultimately show ?thesis using False by (simp add: ilog2_def n_def)
qed

lemma ilog2_upper: assumes "0 < x" "x < 2 ^ w" shows "ilog2 x < int w"
proof (cases "1 \<le> x")
  case True
  have "of_int \<lfloor>x\<rfloor> \<le> x" by simp
  also have "x < of_int (2 ^ w)" using assms by simp
  finally have "\<lfloor>x\<rfloor> < 2 ^ w" by (simp only: of_int_less_iff)
  then have "bitlen \<lfloor>x\<rfloor> \<le> int w" by (simp add: bitlen_le_iff_power)
  then show ?thesis using True by (simp add: ilog2_def)
next
  case False
  have "\<lceil>1 / x\<rceil> - 1 > 0" using False assms by (simp add: less_ceiling_iff)
  then have "1 \<le> bitlen (\<lceil>1 / x\<rceil> - 1)" by (simp add: bitlen_ge_iff_power)
  then show ?thesis using False by (simp add: ilog2_def)
qed


lemma ilog2_less: assumes "0 < x" shows "x < 2 powi (ilog2 x + 1)"
proof (cases "1 \<le> x")
  case True
  then have p: "0 < \<lfloor>x\<rfloor>" by linarith
  from bitlen_bounds[OF p] have b: "\<lfloor>x\<rfloor> < 2 ^ nat (bitlen \<lfloor>x\<rfloor>)" by simp
  have l: "1 \<le> bitlen \<lfloor>x\<rfloor>" using p by (simp add: bitlen_ge_iff_power)
  have "x < of_int (\<lfloor>x\<rfloor> + 1)" by linarith
  also have "\<dots> \<le> of_int (2 ^ nat (bitlen \<lfloor>x\<rfloor>))"
  proof -
    from b have "\<lfloor>x\<rfloor> + 1 \<le> 2 ^ nat (bitlen \<lfloor>x\<rfloor>)" by simp
    then show ?thesis by (simp only: of_int_le_iff)
  qed
  also have "\<dots> = 2 powi (bitlen \<lfloor>x\<rfloor>)" using l by (simp add: power_int_def)
  finally show ?thesis using True by (simp add: ilog2_def)
next
  case False
  define n where "n = \<lceil>1 / x\<rceil> - 1"
  from False assms have "1 < 1 / x" by simp
  then have "1 < \<lceil>1 / x\<rceil>" by (simp add: less_ceiling_iff)
  then have p: "0 < n" by (simp add: n_def)
  then have l: "1 \<le> bitlen n" by (simp add: bitlen_ge_iff_power)
  from bitlen_bounds[OF p] have "2 ^ nat (bitlen n - 1) \<le> n" by simp
  then have "(of_int (2 ^ nat (bitlen n - 1)) :: rat) \<le> of_int n" by (simp only: of_int_le_iff)
  also have "of_int n < 1 / x" unfolding n_def by linarith
  finally have "2 ^ nat (bitlen n - 1) < 1 / x" by simp
  then have "x * 2 ^ nat (bitlen n - 1) < 1" using assms by (simp add: field_simps)
  then have "x < inverse (2 ^ nat (bitlen n - 1))" by (simp add: field_simps)
  moreover have "(2::rat) powi (bitlen n - 1) = 2 ^ nat (bitlen n - 1)"
    using l by (simp add: power_int_def)
  then have "(2::rat) powi (- (bitlen n - 1)) = inverse (2 ^ nat (bitlen n - 1))"
    by (simp only: power_int_minus)
  ultimately show ?thesis using False by (simp add: ilog2_def n_def)
qed

lemma ulp_pos: "0 < ulp x"
  by (simp add: ulp_def)

lemma fl_round_pos: assumes "0 < x" shows "0 < fl_round x"
proof -
  have "ulp x = 2 powi (ilog2 x) / 2 powi 52"
    using assms by (simp add: ulp_def power_int_diff)
  also have "\<dots> \<le> 2 powi (ilog2 x)" by (simp add: field_simps)
  also have "\<dots> \<le> x" by (rule ilog2_lower[OF assms])
  finally have "of_int 1 \<le> x / ulp x" using ulp_pos[of x] by (simp add: field_simps)
  then have "1 \<le> rne (x / ulp x)" by (rule rne_ge_int)
  then have "0 < (of_int (rne (x / ulp x)) :: rat)" by simp
  then show ?thesis using assms ulp_pos[of x] by (simp add: fl_round_def)
qed

text \<open>The significand of a positive number has 53 bits.\<close>

lemma significand_range:
  assumes "0 < x" shows "2 ^ 52 \<le> x / ulp x" and "x / ulp x < 2 ^ 53"
proof -
  have u: "ulp x = 2 powi (ilog2 x) / 2 ^ 52"
    using assms by (simp add: ulp_def power_int_diff)
  have "2 powi (ilog2 x) \<le> x" by (rule ilog2_lower[OF assms])
  then show "2 ^ 52 \<le> x / ulp x" using ulp_pos[of x] unfolding u by (simp add: field_simps)
  have "x < 2 powi (ilog2 x + 1)" by (rule ilog2_less[OF assms])
  also have "\<dots> = 2 powi (ilog2 x) * 2" by (simp add: power_int_add)
  finally show "x / ulp x < 2 ^ 53" unfolding u by (simp add: field_simps)
qed

lemma rne_near: "\<bar>of_int (rne y) - y\<bar> \<le> 1 / 2"
proof -
  define d where "d = y - of_int \<lfloor>y\<rfloor>"
  have d: "0 \<le> d" "d < 1" unfolding d_def by linarith+
  have y: "y = of_int \<lfloor>y\<rfloor> + d" by (simp add: d_def)
  consider "d < 1 / 2" | "1 / 2 < d" | "d = 1 / 2" by linarith
  then show ?thesis
  proof cases
    case 1
    then have "rne y = \<lfloor>y\<rfloor>" by (simp add: rne_def Let_def d_def)
    then show ?thesis using d 1 by (simp add: d_def abs_if; linarith)
  next
    case 2
    then have "rne y = \<lfloor>y\<rfloor> + 1" by (simp add: rne_def Let_def d_def)
    then show ?thesis using d 2 by (simp add: d_def abs_if; linarith)
  next
    case 3
    then have "rne y = \<lfloor>y\<rfloor> \<or> rne y = \<lfloor>y\<rfloor> + 1" by (simp add: rne_def Let_def d_def)
    then show ?thesis using 3 by (auto simp add: d_def abs_if; linarith)
  qed
qed

text \<open>The rounded value is within half a unit in the last place.\<close>

lemma fl_round_near: "\<bar>fl_round x - x\<bar> \<le> ulp x / 2"
proof (cases "x = 0")
  case True
  then show ?thesis using ulp_pos[of 0] by (simp add: fl_round_def)
next
  case False
  have "of_int (rne (x / ulp x)) * ulp x - x = (of_int (rne (x / ulp x)) - x / ulp x) * ulp x"
    using ulp_pos[of x] by (simp add: field_simps)
  then have "\<bar>fl_round x - x\<bar> = \<bar>of_int (rne (x / ulp x)) - x / ulp x\<bar> * ulp x"
    using False ulp_pos[of x] by (simp add: fl_round_def abs_mult)
  also have "\<dots> \<le> 1 / 2 * ulp x"
    using rne_near[of "x / ulp x"] ulp_pos[of x] by (intro mult_right_mono) simp_all
  finally show ?thesis by simp
qed

lemma fl_round_le_dyadic:
  assumes "0 < x" "x \<le> of_nat c * 2 ^ k" "of_nat c * 2 ^ k < (2::rat) ^ w" "w \<le> 52 + k"
  shows "fl_round x \<le> of_nat c * 2 ^ k"
proof -
  have "x < 2 ^ w" using assms by simp
  then have "ilog2 x < int w" by (rule ilog2_upper[OF assms(1)])
  then have e: "ilog2 x - 52 \<le> int k" using assms(4) by simp
  define d where "d = nat (int k - (ilog2 x - 52))"
  have "(2::rat) powi (int k) = 2 powi (ilog2 x - 52) * 2 powi (int d)"
    using e by (simp add: d_def flip: power_int_add)
  then have u: "(2::rat) ^ k = ulp x * 2 ^ d" using assms(1) by (simp add: ulp_def)
  have "x / ulp x \<le> of_nat c * 2 ^ k / ulp x"
    using assms(2) ulp_pos[of x] by (simp add: divide_right_mono)
  also have "\<dots> = of_int (int c * 2 ^ d)" using ulp_pos[of x] by (simp add: u)
  finally have "rne (x / ulp x) \<le> int c * 2 ^ d" by (rule rne_le_int)
  then have "(of_int (rne (x / ulp x)) :: rat) \<le> of_int (int c * 2 ^ d)"
    by (simp only: of_int_le_iff)
  then have "of_int (rne (x / ulp x)) * ulp x \<le> of_int (int c * 2 ^ d) * ulp x"
    using ulp_pos[of x] by (simp add: mult_right_mono)
  also have "\<dots> = of_nat c * 2 ^ k" by (simp add: u)
  finally show ?thesis using assms(1) by (simp add: fl_round_def)
qed


section \<open>The sample size\<close>

lemma float_of_nat_CHUNKSIZE: "float_of_nat CHUNKSIZE = 10485760"
proof -
  have "fl_round 10485760 = 10485760" unfolding fl_round_def by code_simp
  then show ?thesis by (simp add: float_of_nat_def CHUNKSIZE_def)
qed

lemma fl_round_product_le:
  assumes "0 < r" "r \<le> 1" shows "fl_round (r * 10485760) \<le> 10485760"
proof -
  have "fl_round (r * 10485760) \<le> of_nat 5 * 2 ^ 21"
  proof (rule fl_round_le_dyadic[where w = 24])
    show "0 < r * 10485760" using assms by simp
    show "r * 10485760 \<le> of_nat 5 * 2 ^ 21" using assms by simp
    show "of_nat 5 * 2 ^ 21 < (2::rat) ^ 24" by simp
    show "24 \<le> 52 + (21::nat)" by simp
  qed
  then show ?thesis by simp
qed

lemma sample_size_floor:
  assumes "valid_sampling_ratio r"
  shows "int (sample_size r) = \<lfloor>fl_round (r * 10485760)\<rfloor>"
proof -
  have "0 < r * 10485760" using assms by (simp add: valid_sampling_ratio_def)
  then have "0 < fl_round (r * 10485760)" by (rule fl_round_pos)
  then show ?thesis
    by (simp add: sample_size_def py_int_def fmul_def float_of_nat_CHUNKSIZE)
qed

lemma sample_size_le_CHUNKSIZE:
  assumes "valid_sampling_ratio r" shows "sample_size r \<le> CHUNKSIZE"
proof -
  have "fl_round (r * 10485760) \<le> 10485760"
    using assms by (intro fl_round_product_le) (simp_all add: valid_sampling_ratio_def)
  then have "\<lfloor>fl_round (r * 10485760)\<rfloor> \<le> \<lfloor>10485760 :: rat\<rfloor>" by (rule floor_mono)
  then have "int (sample_size r) \<le> 10485760" using sample_size_floor[OF assms] by simp
  then show ?thesis by (simp add: CHUNKSIZE_def)
qed

text \<open>
  Claim C5, as the code has it: for every sampling ratio that passes validation, the sample
  size is the double-precision product of the ratio and the chunk size of 10 MiB
  (10485760 bytes), truncated to an integer, which is its floor since the product is
  positive; it is at most the chunk size.
\<close>

theorem C5_sample_size_truncates:
  "valid_sampling_ratio r \<Longrightarrow>
     int (sample_size r) = \<lfloor>fl_round (r * 10485760)\<rfloor> \<and> sample_size r \<le> CHUNKSIZE
     \<and> CHUNKSIZE = 10485760"
proof -
  assume v: "valid_sampling_ratio r"
  have "int (sample_size r) = \<lfloor>fl_round (r * 10485760)\<rfloor>" using v by (rule sample_size_floor)
  moreover have "sample_size r \<le> CHUNKSIZE" using v by (rule sample_size_le_CHUNKSIZE)
  moreover have "CHUNKSIZE = 10485760" by (simp add: CHUNKSIZE_def)
  ultimately show ?thesis by blast
qed

theorem C5_sample_size_truncates_witness:
  "valid_sampling_ratio (1 / 2) \<and> int (sample_size (1 / 2)) = \<lfloor>fl_round (1 / 2 * 10485760)\<rfloor>
    \<and> sample_size (1 / 2) \<le> CHUNKSIZE \<and> CHUNKSIZE = 10485760"
  using C5_sample_size_truncates [of "1 / 2"] by (simp add: valid_sampling_ratio_def)

lemma fl_round_35_4: "fl_round (35 / 4) = 35 / 4"
  unfolding fl_round_def by code_simp

text \<open>
  Claim C5 as stated, with rounding to the nearest integer, fails at the ratio
  \<open>7 / 2 ^ 23\<close>, a double whose product with the chunk size is exactly 8.75: the
  sample size is 8, the nearest integer is 9.
\<close>

theorem C5_round_counterexample:
  "valid_sampling_ratio (7 / 2 ^ 23) \<and> sample_size (7 / 2 ^ 23) = 8
    \<and> round (fmul (7 / 2 ^ 23) (float_of_nat CHUNKSIZE)) = 9
    \<and> round ((7 / 2 ^ 23 :: rat) * of_nat CHUNKSIZE) = 9"
proof -
  have m: "fmul (7 / 2 ^ 23) (float_of_nat CHUNKSIZE) = 35 / 4"
    by (simp add: fmul_def float_of_nat_CHUNKSIZE fl_round_35_4)
  have e: "(7 / 2 ^ 23 :: rat) * of_nat CHUNKSIZE = 35 / 4"
    by (simp add: CHUNKSIZE_def)
  have a: "valid_sampling_ratio (7 / 2 ^ 23)"
    by (simp add: valid_sampling_ratio_def)
  have b: "sample_size (7 / 2 ^ 23) = 8"
    unfolding sample_size_def m py_int_def by code_simp
  have c: "round (fmul (7 / 2 ^ 23) (float_of_nat CHUNKSIZE)) = 9"
    unfolding m round_def by code_simp
  have d: "round ((7 / 2 ^ 23 :: rat) * of_nat CHUNKSIZE) = 9"
    unfolding e round_def by code_simp
  from a b c d show ?thesis by blast
qed

section \<open>Runs with an empty sample\<close>

lemma default_sampling_ratio_value:
  "default_sampling_ratio = 3602879701896397 / 36028797018963968"
  unfolding default_sampling_ratio_def fl_round_def by code_simp

lemma valid_default_sampling_ratio: "valid_sampling_ratio default_sampling_ratio"
  by (simp add: default_sampling_ratio_value valid_sampling_ratio_def)

lemma sample_size_default: "sample_size default_sampling_ratio = 1048576"
proof -
  have "fl_round (3602879701896397 / 36028797018963968 * 10485760) = 1048576"
    unfolding fl_round_def by code_simp
  then show ?thesis
    by (simp add: sample_size_def fmul_def float_of_nat_CHUNKSIZE py_int_def
        default_sampling_ratio_value)
qed

lemma py_range_empty: "hi \<le> lo \<Longrightarrow> py_range lo hi step = []"
  by (simp add: py_range_def)

lemma fl_round_0: "fl_round 0 = 0"
  by (simp add: fl_round_def)

lemma float_of_nat_0: "float_of_nat 0 = 0"
  by (simp add: float_of_nat_def fl_round_0)

lemma float_of_nat_pos: "0 < n \<Longrightarrow> 0 < float_of_nat n"
  by (simp add: float_of_nat_def fl_round_pos)

lemma process_file_no_points:
  "sampling_points st = [] \<Longrightarrow>
     process_file fs ss st entry = st\<lparr>current_offset := current_offset st + snd entry\<rparr>"
  by (simp add: process_file_def)

lemma walk_no_points:
  "sampling_points st = [] \<Longrightarrow>
     walk fs ss st files = st\<lparr>current_offset := current_offset st + total_size files\<rparr>"
proof (induction files arbitrary: st)
  case Nil
  then show ?case by (simp add: walk_def total_size_def)
next
  case (Cons entry files)
  have "walk fs ss st (entry # files) = walk fs ss (process_file fs ss st entry) files"
    by (simp add: walk_def)
  also have "\<dots> = walk fs ss (st\<lparr>current_offset := current_offset st + snd entry\<rparr>) files"
    using Cons.prems by (simp add: process_file_no_points)
  also have "\<dots> = st\<lparr>current_offset := current_offset st + total_size (entry # files)\<rparr>"
    using Cons.prems by (subst Cons.IH) (simp_all add: total_size_def add.assoc)
  finally show ?case .
qed

lemma sample_data_no_points:
  assumes "plan (sample_size (sampling_ratio a)) files = []"
  shows "sampled_data (snd (sample_data a fs files)) = []"
  using assms by (simp add: sample_data_def Let_def walk_no_points start_def)

lemma plan_empty: "total_size files \<le> CHUNKSIZE - ss \<Longrightarrow> plan ss files = []"
  by (simp add: plan_def py_range_empty)

lemma main_empty_sample:
  assumes "sampled_data (snd (sample_data a fs files)) = []"
  shows "main compress a fs files =
     (if 0 < total_size files
      then (fst (sample_data a fs files) @ fst (compress_sampled_data compress a []),
            Some ZeroDivisionError)
      else (fst (sample_data a fs files) @ fst (compress_sampled_data compress a []) @
              [Rule, Original_size 0, Estimated_compressed_size 0],
            Some ZeroDivisionError))"
proof -
  obtain out1 st where s: "sample_data a fs files = (out1, st)" by (cases "sample_data a fs files")
  obtain out2 c where c: "compress_sampled_data compress a [] = (out2, c)"
    by (cases "compress_sampled_data compress a []")
  have e: "sampled_data st = []" using assms s by simp
  show ?thesis
    by (simp add: main_def s c e estimate_def ratio_def fdiv_def float_of_nat_0)
qed


lemma diagnostics_sample_data: "filter (\<lambda>x. \<not> is_diagnostic x) (fst (sample_data a fs files)) = []"
  by (simp add: sample_data_def Let_def)

lemma diagnostics_compress:
  "filter (\<lambda>x. \<not> is_diagnostic x) (fst (compress_sampled_data compress a d)) = []"
  by (simp add: compress_sampled_data_def Let_def)

text \<open>
  Claim C1 on the code: for every inventory whose total size is 0 the sampling points and
  the sample are empty and the estimated compressed size 0 is printed, but the line that
  prints the compression ratio then divides 0 by 0, and \<open>main\<close> ends with
  ZeroDivisionError instead of reporting an undefined ratio.
\<close>

theorem C1_zero_total_divides_by_zero:
  "valid_sampling_ratio (sampling_ratio a) \<Longrightarrow> total_size files = 0 \<Longrightarrow>
     plan (sample_size (sampling_ratio a)) files = [] \<and>
     sampled_data (snd (sample_data a fs files)) = [] \<and>
     main compress a fs files =
       (fst (sample_data a fs files) @ fst (compress_sampled_data compress a []) @
          [Rule, Original_size 0, Estimated_compressed_size 0],
        Some ZeroDivisionError)"
proof -
  assume z: "total_size files = 0"
  then have p: "plan (sample_size (sampling_ratio a)) files = []" by (simp add: plan_empty)
  then have e: "sampled_data (snd (sample_data a fs files)) = []" by (rule sample_data_no_points)
  show ?thesis using p e z by (simp add: main_empty_sample)
qed

theorem C1_zero_total_divides_by_zero_witness:
  "valid_sampling_ratio (sampling_ratio default_args) \<and> total_size [(''empty.txt'', 0)] = 0 \<and>
   main (\<lambda>alg lvl d. 0 # d) default_args (\<lambda>path. Regular []) [(''empty.txt'', 0)] =
     ([Rule, Original_size 0, Estimated_compressed_size 0], Some ZeroDivisionError)"
  using C1_zero_total_divides_by_zero
    [where files = "[(''empty.txt'', 0)]" and a = default_args
       and compress = "\<lambda>alg lvl d. 0 # d" and fs = "\<lambda>path. Regular []"]
  by (simp add: total_size_def sample_data_def compress_sampled_data_def default_args_def Let_def
      valid_default_sampling_ratio)

text \<open>
  Claim C9: for every inventory with \<open>0 < total_size \<le> CHUNKSIZE - sample_size\<close> the
  sampling points and the sample are empty, the division of the compressed size by the
  length of the sample raises ZeroDivisionError, and no line of the report is printed.
\<close>

theorem C9_small_directory_divides_by_zero:
  "valid_sampling_ratio (sampling_ratio a) \<Longrightarrow> 0 < total_size files \<Longrightarrow>
   total_size files \<le> CHUNKSIZE - sample_size (sampling_ratio a) \<Longrightarrow>
     plan (sample_size (sampling_ratio a)) files = [] \<and>
     sampled_data (snd (sample_data a fs files)) = [] \<and>
     main compress a fs files =
       (fst (sample_data a fs files) @ fst (compress_sampled_data compress a []),
        Some ZeroDivisionError) \<and>
     filter (\<lambda>x. \<not> is_diagnostic x) (fst (main compress a fs files)) = []"
proof -
  assume t: "0 < total_size files"
    and "total_size files \<le> CHUNKSIZE - sample_size (sampling_ratio a)"
  then have p: "plan (sample_size (sampling_ratio a)) files = []" by (simp add: plan_empty)
  then have e: "sampled_data (snd (sample_data a fs files)) = []" by (rule sample_data_no_points)
  show ?thesis using p e t
    by (simp add: main_empty_sample diagnostics_sample_data diagnostics_compress)
qed

theorem C9_small_directory_divides_by_zero_witness:
  "valid_sampling_ratio (sampling_ratio default_args) \<and> 0 < total_size [(''a.txt'', 100)] \<and>
   total_size [(''a.txt'', 100)] \<le> CHUNKSIZE - sample_size (sampling_ratio default_args) \<and>
   main (\<lambda>alg lvl d. 0 # d) default_args (\<lambda>path. Regular (replicate 100 0)) [(''a.txt'', 100)] =
     ([], Some ZeroDivisionError)"
  using C9_small_directory_divides_by_zero
    [where files = "[(''a.txt'', 100)]" and a = default_args
       and compress = "\<lambda>alg lvl d. 0 # d" and fs = "\<lambda>path. Regular (replicate 100 0)"]
  by (simp add: total_size_def sample_data_def compress_sampled_data_def default_args_def
      valid_default_sampling_ratio sample_size_default CHUNKSIZE_def Let_def)

section \<open>The verbose flag\<close>

text \<open>
  Claim C8: with and without \<open>--verbose\<close>, all other arguments equal, the sampler ends
  in the same state (the same sample), the compressed length is the same, \<open>main\<close> ends
  the same way, and what is printed without the flag is what is printed with it less the
  diagnostic lines, so the estimated size and the ratio printed are the same.
\<close>

theorem C8_verbose_changes_only_diagnostics:
  "valid_sampling_ratio (sampling_ratio a) \<Longrightarrow>
   snd (sample_data (a\<lparr>verbose := True\<rparr>) fs files) = snd (sample_data (a\<lparr>verbose := False\<rparr>) fs files) \<and>
   snd (compress_sampled_data compress (a\<lparr>verbose := True\<rparr>) d) =
     snd (compress_sampled_data compress (a\<lparr>verbose := False\<rparr>) d) \<and>
   snd (main compress (a\<lparr>verbose := True\<rparr>) fs files) =
     snd (main compress (a\<lparr>verbose := False\<rparr>) fs files) \<and>
   fst (main compress (a\<lparr>verbose := False\<rparr>) fs files) =
     filter (\<lambda>x. \<not> is_diagnostic x) (fst (main compress (a\<lparr>verbose := True\<rparr>) fs files))"
  by (simp add: main_def sample_data_def compress_sampled_data_def Let_def
      split: sum.splits)

theorem C8_verbose_changes_only_diagnostics_witness:
  "valid_sampling_ratio (sampling_ratio default_args) \<and>
   fst (main (\<lambda>alg lvl d. take 262144 d) (default_args\<lparr>verbose := False\<rparr>)
     (\<lambda>path. Regular (replicate 10485760 7)) [(''a.bin'', 10485760)]) =
   filter (\<lambda>x. \<not> is_diagnostic x)
     (fst (main (\<lambda>alg lvl d. take 262144 d) (default_args\<lparr>verbose := True\<rparr>)
       (\<lambda>path. Regular (replicate 10485760 7)) [(''a.bin'', 10485760)]))"
  using C8_verbose_changes_only_diagnostics [where a = default_args
      and compress = "\<lambda>alg lvl d. take 262144 d"
      and fs = "\<lambda>path. Regular (replicate 10485760 7)" and files = "[(''a.bin'', 10485760)]"]
  by (simp add: default_args_def valid_default_sampling_ratio)

section \<open>Bounds on the sample\<close>

lemma seek_read_Inr:
  "seek_read f off n = Inr b \<Longrightarrow> b = take n (drop off (contents f))"
  by (cases f) (auto split: if_splits)

lemma seek_read_length: "seek_read f off n = Inr b \<Longrightarrow> length b \<le> n"
  by (auto dest: seek_read_Inr)

lemma read_windows_budget:
  "read_windows f path ss cur fsz data rds ps = (data', rds', ps', err) \<Longrightarrow>
     length data' + ss * length ps' \<le> length data + ss * length ps"
proof (induction ps arbitrary: data rds)
  case Nil
  then show ?case by simp
next
  case (Cons p ps)
  show ?case
  proof (cases "cur + fsz > p")
    case False
    with Cons.prems show ?thesis by simp
  next
    case True
    show ?thesis
    proof (cases "seek_read f (p - cur) ss")
      case (Inl e)
      with True Cons.prems show ?thesis by simp
    next
      case (Inr chunk)
      with True Cons.prems
      have "read_windows f path ss cur fsz (data @ chunk) (rds @ [(path, p - cur)]) ps
              = (data', rds', ps', err)"
        by simp
      from Cons.IH[OF this] seek_read_length[OF Inr] show ?thesis by simp
    qed
  qed
qed

lemma process_file_budget:
  "length (sampled_data (process_file fs ss st entry))
     + ss * length (sampling_points (process_file fs ss st entry))
   \<le> length (sampled_data st) + ss * length (sampling_points st)"
proof (cases "sampling_points st")
  case Nil
  then show ?thesis by (simp add: process_file_def)
next
  case (Cons p ps)
  show ?thesis
  proof (cases "p \<ge> current_offset st + snd entry")
    case True
    with Cons show ?thesis by (simp add: process_file_def)
  next
    case False
    show ?thesis
    proof (cases "py_open (fs (fst entry))")
      case (Inl e)
      with False Cons show ?thesis by (simp add: process_file_def)
    next
      case (Inr f)
      obtain data' rds' ps' err where r:
        "read_windows f (fst entry) ss (current_offset st) (snd entry)
           (sampled_data st) (reads st) (p # ps) = (data', rds', ps', err)"
        by (metis prod_cases4)
      from read_windows_budget[OF r] False Cons Inr r show ?thesis
        by (cases err) (simp_all add: process_file_def)
    qed
  qed
qed

lemma walk_budget:
  "length (sampled_data (walk fs ss st files)) + ss * length (sampling_points (walk fs ss st files))
   \<le> length (sampled_data st) + ss * length (sampling_points st)"
proof (induction files arbitrary: st)
  case Nil
  then show ?case by (simp add: walk_def)
next
  case (Cons entry files)
  have "walk fs ss st (entry # files) = walk fs ss (process_file fs ss st entry) files"
    by (simp add: walk_def)
  with Cons.IH[of "process_file fs ss st entry"] process_file_budget[of fs ss st entry]
  show ?case by simp
qed

text \<open>
  Claim C6: for every inventory, on every file system, the sample that \<open>sample_data\<close>
  returns is at most \<open>sample_size\<close> times the number of sampling points long, and the
  window that one read contributes is at most \<open>sample_size\<close> bytes.
\<close>

theorem C6_sample_length_bound:
  "valid_sampling_ratio (sampling_ratio a) \<Longrightarrow>
   length (sampled_data (snd (sample_data a fs files)))
     \<le> sample_size (sampling_ratio a) * length (plan (sample_size (sampling_ratio a)) files)
   \<and> length (case seek_read f off (sample_size (sampling_ratio a)) of
               Inl e \<Rightarrow> [] | Inr window \<Rightarrow> window)
     \<le> sample_size (sampling_ratio a)"
proof -
  let ?ss = "sample_size (sampling_ratio a)"
  have "length (sampled_data (walk fs ?ss (start ?ss files) files))
          \<le> length (sampled_data (start ?ss files))
             + ?ss * length (sampling_points (start ?ss files))"
    using walk_budget[of fs ?ss "start ?ss files" files] by simp
  then have "length (sampled_data (snd (sample_data a fs files))) \<le> ?ss * length (plan ?ss files)"
    by (simp add: sample_data_def Let_def start_def)
  moreover have "length (case seek_read f off ?ss of Inl e \<Rightarrow> [] | Inr window \<Rightarrow> window) \<le> ?ss"
    by (cases "seek_read f off ?ss") (simp_all add: seek_read_length)
  ultimately show ?thesis by simp
qed

theorem C6_sample_length_bound_witness:
  "valid_sampling_ratio (sampling_ratio default_args) \<and>
   length (sampled_data (snd (sample_data default_args (\<lambda>path. Regular (replicate 10485760 7))
       [(''a.bin'', 10485760)])))
     \<le> 1048576 * length [9437184 :: nat]"
proof -
  have "plan 1048576 [(''a.bin'', 10485760)] = [9437184]"
    by (simp add: plan_def py_range_def total_size_def CHUNKSIZE_def)
  with C6_sample_length_bound [where a = default_args and files = "[(''a.bin'', 10485760)]"
      and fs = "\<lambda>path. Regular (replicate 10485760 7)"]
  show ?thesis by (simp add: default_args_def valid_default_sampling_ratio sample_size_default)
qed

subsection \<open>The bytes read from one file\<close>

lemma py_range_spaced:
  "0 < step \<Longrightarrow> sorted_wrt (\<lambda>a b. a + step \<le> b) (py_range lo hi step)"
proof -
  assume "0 < step"
  have m: "lo + k * step + step \<le> lo + k' * step" if "k < k'" for k k' :: nat
  proof -
    from that have "Suc k \<le> k'" by simp
    then have "Suc k * step \<le> k' * step" by (rule mult_le_mono1)
    then show ?thesis by simp
  qed
  have "sorted_wrt (\<lambda>k k'. lo + k * step + step \<le> lo + k' * step) [0..<n]" for n
    by (rule sorted_wrt_mono_rel[OF _ sorted_wrt_upt]) (simp add: m)
  then show ?thesis by (simp add: py_range_def sorted_wrt_map)
qed

lemma spaced_ge_hd:
  "sorted_wrt (\<lambda>a b. a + (d::nat) \<le> b) (q # qs) \<Longrightarrow> x \<in> set (q # qs) \<Longrightarrow> q \<le> x"
  by auto

lemma read_windows_suffix:
  "read_windows f path ss cur fsz data rds ps = (data', rds', ps', err) \<Longrightarrow>
     \<exists>k. ps' = drop k ps"
proof (induction ps arbitrary: data rds)
  case Nil
  then show ?case by simp
next
  case (Cons p ps)
  show ?case
  proof (cases "cur + fsz > p")
    case False
    with Cons.prems have "ps' = drop 0 (p # ps)" by simp
    then show ?thesis by blast
  next
    case True
    show ?thesis
    proof (cases "seek_read f (p - cur) ss")
      case (Inl e)
      with True Cons.prems have "ps' = drop 0 (p # ps)" by simp
      then show ?thesis by blast
    next
      case (Inr chunk)
      with True Cons.prems
      have "read_windows f path ss cur fsz (data @ chunk) (rds @ [(path, p - cur)]) ps
              = (data', rds', ps', err)"
        by simp
      from Cons.IH[OF this] obtain k where "ps' = drop k ps" by blast
      then have "ps' = drop (Suc k) (p # ps)" by simp
      then show ?thesis by blast
    qed
  qed
qed

lemma read_windows_done:
  "read_windows f path ss cur fsz data rds ps = (data', rds', ps', None) \<Longrightarrow>
     (case ps' of [] \<Rightarrow> True | q # qs \<Rightarrow> cur + fsz \<le> q)"
proof (induction ps arbitrary: data rds)
  case Nil
  then show ?case by simp
next
  case (Cons p ps)
  show ?case
  proof (cases "cur + fsz > p")
    case False
    with Cons.prems show ?thesis by auto
  next
    case True
    show ?thesis
    proof (cases "seek_read f (p - cur) ss")
      case (Inl e)
      with True Cons.prems show ?thesis by simp
    next
      case (Inr chunk)
      with True Cons.prems
      have "read_windows f path ss cur fsz (data @ chunk) (rds @ [(path, p - cur)]) ps
              = (data', rds', ps', None)"
        by simp
      from Cons.IH[OF this] show ?thesis .
    qed
  qed
qed

text \<open>The sampling points left are spaced by the chunk size and none lies behind the cursor.\<close>

lemma process_file_spaced:
  assumes "sorted_wrt (\<lambda>a b. a + d \<le> b) (sampling_points st)"
    and "\<forall>p\<in>set (sampling_points st). current_offset st \<le> p"
  shows "sorted_wrt (\<lambda>a b. a + d \<le> b) (sampling_points (process_file fs ss st entry))
    \<and> (\<forall>p\<in>set (sampling_points (process_file fs ss st entry)).
          current_offset (process_file fs ss st entry) \<le> p)"
proof (cases "sampling_points st")
  case Nil
  then show ?thesis by (simp add: process_file_def)
next
  case (Cons p ps)
  show ?thesis
  proof (cases "p \<ge> current_offset st + snd entry")
    case True
    have "current_offset st + snd entry \<le> x" if "x \<in> set (p # ps)" for x
      using spaced_ge_hd[of d p ps x] assms(1) that True Cons by simp
    with True Cons assms show ?thesis by (simp add: process_file_def)
  next
    case False
    show ?thesis
    proof (cases "py_open (fs (fst entry))")
      case (Inl e)
      with False Cons assms show ?thesis by (simp add: process_file_def)
    next
      case (Inr f)
      obtain data' rds' ps' err where r:
        "read_windows f (fst entry) ss (current_offset st) (snd entry)
           (sampled_data st) (reads st) (p # ps) = (data', rds', ps', err)"
        by (metis prod_cases4)
      from read_windows_suffix[OF r] obtain k where k: "ps' = drop k (p # ps)" by blast
      have s: "sorted_wrt (\<lambda>a b. a + d \<le> b) ps'"
        unfolding k using assms(1) Cons by (simp only: sorted_wrt_drop)
      have sub: "set ps' \<subseteq> set (p # ps)" unfolding k by (rule set_drop_subset)
      show ?thesis
      proof (cases err)
        case (Some e)
        with False Cons Inr r s sub assms(2) show ?thesis
          by (auto simp add: process_file_def)
      next
        case None
        have "current_offset st + snd entry \<le> x" if "x \<in> set ps'" for x
        proof (cases ps')
          case Nil
          with that show ?thesis by simp
        next
          case (Cons q qs)
          from read_windows_done[OF r[unfolded None]] Cons
          have "current_offset st + snd entry \<le> q" by simp
          moreover have "q \<le> x" using spaced_ge_hd[of d q qs x] s that Cons by simp
          ultimately show ?thesis by simp
        qed
        with None False Cons Inr r s show ?thesis
          by (simp add: process_file_def)
      qed
    qed
  qed
qed

lemma walk_spaced:
  assumes "sorted_wrt (\<lambda>a b. a + d \<le> b) (sampling_points st)"
    and "\<forall>p\<in>set (sampling_points st). current_offset st \<le> p"
  shows "sorted_wrt (\<lambda>a b. a + d \<le> b) (sampling_points (walk fs ss st files))
    \<and> (\<forall>p\<in>set (sampling_points (walk fs ss st files)). current_offset (walk fs ss st files) \<le> p)"
  using assms
proof (induction files arbitrary: st)
  case Nil
  then show ?case by (simp add: walk_def)
next
  case (Cons entry files)
  have w: "walk fs ss st (entry # files) = walk fs ss (process_file fs ss st entry) files"
    by (simp add: walk_def)
  from process_file_spaced[OF Cons.prems, of fs ss entry]
  show ?case unfolding w by (intro Cons.IH) simp_all
qed

lemma before_spaced:
  "sorted_wrt (\<lambda>a b. a + CHUNKSIZE \<le> b) (sampling_points (before fs ss files i))
    \<and> (\<forall>p\<in>set (sampling_points (before fs ss files i)). current_offset (before fs ss files i) \<le> p)"
  unfolding before_def
  by (rule walk_spaced) (simp_all add: start_def plan_def py_range_spaced CHUNKSIZE_def)

lemma before_Suc:
  "i < length files \<Longrightarrow>
     before fs ss files (Suc i) = process_file fs ss (before fs ss files i) (files ! i)"
  by (simp add: before_def walk_def take_Suc_conv_app_nth)


lemma read_windows_prefix:
  "read_windows f path ss cur fsz data rds ps = (data', rds', ps', err) \<Longrightarrow>
     \<exists>x. data' = data @ x"
proof (induction ps arbitrary: data rds)
  case Nil
  then show ?case by simp
next
  case (Cons p ps)
  show ?case
  proof (cases "cur + fsz > p")
    case False
    with Cons.prems show ?thesis by simp
  next
    case True
    show ?thesis
    proof (cases "seek_read f (p - cur) ss")
      case (Inl e)
      with True Cons.prems show ?thesis by simp
    next
      case (Inr chunk)
      with True Cons.prems
      have "read_windows f path ss cur fsz (data @ chunk) (rds @ [(path, p - cur)]) ps
              = (data', rds', ps', err)"
        by simp
      from Cons.IH[OF this] show ?thesis by auto
    qed
  qed
qed

lemma window_arith:
  fixes L r ss b :: nat
  assumes "r + ss \<le> b \<or> L \<le> b"
  shows "min ss (L - r) + min L r \<le> min L b"
  using assms by (auto simp add: min_def)

lemma read_windows_within_file:
  assumes "read_windows f path ss cur fsz data rds ps = (data', rds', ps', err)"
    and "sorted_wrt (\<lambda>a b. a + d \<le> b) ps" and "ss \<le> d" and "\<forall>p\<in>set ps. cur \<le> p"
  shows "length data' + (case ps of [] \<Rightarrow> length (contents f)
                          | p # qs \<Rightarrow> min (length (contents f)) (p - cur))
           \<le> length data + length (contents f)"
  using assms(1,2,4)
proof (induction ps arbitrary: data rds)
  case Nil
  then show ?case by simp
next
  case (Cons p ps)
  let ?L = "length (contents f)"
  show ?case
  proof (cases "cur + fsz > p")
    case False
    with Cons.prems(1) have "data' = data" by simp
    then show ?thesis by simp
  next
    case True
    show ?thesis
    proof (cases "seek_read f (p - cur) ss")
      case (Inl e)
      with True Cons.prems(1) have "data' = data" by simp
      then show ?thesis by simp
    next
      case (Inr chunk)
      with True Cons.prems(1)
      have r: "read_windows f path ss cur fsz (data @ chunk) (rds @ [(path, p - cur)]) ps
              = (data', rds', ps', err)"
        by simp
      have c: "length chunk = min ss (?L - (p - cur))"
        using seek_read_Inr[OF Inr] by simp
      have ih: "length data' + (case ps of [] \<Rightarrow> ?L | q # qs \<Rightarrow> min ?L (q - cur))
                  \<le> length data + length chunk + ?L"
        using Cons.IH[OF r] Cons.prems(2,3) by simp
      have "length chunk + min ?L (p - cur) \<le> (case ps of [] \<Rightarrow> ?L | q # qs \<Rightarrow> min ?L (q - cur))"
      proof (cases ps)
        case Nil
        then show ?thesis unfolding c using window_arith[of "p - cur" ss ?L ?L] by simp
      next
        case (Cons q qs)
        with Cons.prems(2,3) \<open>ss \<le> d\<close> have "p - cur + ss \<le> q - cur" by auto
        then show ?thesis unfolding c using window_arith[of "p - cur" ss "q - cur" ?L] Cons
          by simp
      qed
      with ih show ?thesis by simp
    qed
  qed
qed

lemma process_file_within_file:
  assumes "sorted_wrt (\<lambda>a b. a + d \<le> b) (sampling_points st)" and "ss \<le> d"
    and "\<forall>p\<in>set (sampling_points st). current_offset st \<le> p"
  shows "\<exists>x. sampled_data (process_file fs ss st entry) = sampled_data st @ x
           \<and> length x \<le> length (contents (fs (fst entry)))"
proof (cases "sampling_points st")
  case Nil
  then show ?thesis by (simp add: process_file_def)
next
  case (Cons p ps)
  show ?thesis
  proof (cases "p \<ge> current_offset st + snd entry")
    case True
    with Cons show ?thesis by (simp add: process_file_def)
  next
    case False
    show ?thesis
    proof (cases "py_open (fs (fst entry))")
      case (Inl e)
      with False Cons show ?thesis by (simp add: process_file_def)
    next
      case (Inr f)
      have f: "f = fs (fst entry)" using Inr by (cases "fs (fst entry)") auto
      obtain data' rds' ps' err where r:
        "read_windows f (fst entry) ss (current_offset st) (snd entry)
           (sampled_data st) (reads st) (p # ps) = (data', rds', ps', err)"
        by (metis prod_cases4)
      from read_windows_prefix[OF r] obtain x where x: "data' = sampled_data st @ x" by blast
      from read_windows_within_file[OF r _ assms(2)] assms(1,3) Cons
      have "length data' \<le> length (sampled_data st) + length (contents f)" by simp
      then have "length x \<le> length (contents (fs (fst entry)))" using x f by simp
      moreover have "sampled_data (process_file fs ss st entry) = data'"
        using False Cons Inr r by (cases err) (simp_all add: process_file_def)
      ultimately show ?thesis using x by simp
    qed
  qed
qed

lemma bytes_read_step:
  assumes "ss \<le> CHUNKSIZE" and "i < length files"
  shows "sampled_data (before fs ss files (Suc i)) = sampled_data (before fs ss files i) @ bytes_read fs ss files i
     \<and> length (bytes_read fs ss files i) \<le> length (contents (fs (fst (files ! i))))"
proof -
  from before_spaced[of fs ss files i] assms(1)
    process_file_within_file[of CHUNKSIZE "before fs ss files i" ss fs "files ! i"]
  obtain x where "sampled_data (process_file fs ss (before fs ss files i) (files ! i))
      = sampled_data (before fs ss files i) @ x"
    and "length x \<le> length (contents (fs (fst (files ! i))))"
    by blast
  then show ?thesis using assms(2) by (simp add: bytes_read_def before_Suc)
qed

lemma sampled_data_concat:
  assumes "ss \<le> CHUNKSIZE" and "n \<le> length files"
  shows "sampled_data (before fs ss files n) = concat (map (bytes_read fs ss files) [0..<n])"
  using assms(2)
proof (induction n)
  case 0
  then show ?case by (simp add: before_def walk_def start_def)
next
  case (Suc n)
  then have "n < length files" by simp
  from bytes_read_step[OF assms(1) this, of fs] Suc show ?case by simp
qed

lemma before_all: "before fs ss files (length files) = walk fs ss (start ss files) files"
  by (simp add: before_def)

text \<open>
  Claim C7: the sample is the concatenation of what the visits of the files read, and the
  bytes read from a file, over all the windows of its visit, are at most as many as the
  file holds; they are at most the size listed in the inventory when the file has not
  grown since it was listed.
\<close>

theorem C7_bytes_read_within_file:
  assumes "valid_sampling_ratio (sampling_ratio a)" and "i < length files"
  shows "sampled_data (snd (sample_data a fs files))
           = concat (map (bytes_read fs (sample_size (sampling_ratio a)) files) [0..<length files])
     \<and> length (bytes_read fs (sample_size (sampling_ratio a)) files i)
           \<le> length (contents (fs (fst (files ! i))))
     \<and> (length (contents (fs (fst (files ! i)))) \<le> snd (files ! i) \<longrightarrow>
          length (bytes_read fs (sample_size (sampling_ratio a)) files i) \<le> snd (files ! i))"
proof -
  have le: "sample_size (sampling_ratio a) \<le> CHUNKSIZE"
    using assms(1) by (rule sample_size_le_CHUNKSIZE)
  have "sampled_data (snd (sample_data a fs files))
      = sampled_data (before fs (sample_size (sampling_ratio a)) files (length files))"
    by (simp add: sample_data_def Let_def before_all)
  with sampled_data_concat[OF le order_refl, of fs files] bytes_read_step[OF le assms(2), of fs]
  show ?thesis by simp
qed

theorem C7_bytes_read_within_file_witness:
  "valid_sampling_ratio (sampling_ratio default_args) \<and> 0 < length [(''a.bin'', 10485760 :: nat)] \<and>
   sampled_data (snd (sample_data default_args (\<lambda>path. Regular (replicate 10485760 7))
       [(''a.bin'', 10485760)])) = replicate 1048576 7 \<and>
   length (bytes_read (\<lambda>path. Regular (replicate 10485760 7))
       (sample_size (sampling_ratio default_args)) [(''a.bin'', 10485760)] 0)
     \<le> length (contents (Regular (replicate 10485760 7))) \<and>
   length (bytes_read (\<lambda>path. Regular (replicate 10485760 7))
       (sample_size (sampling_ratio default_args)) [(''a.bin'', 10485760)] 0)
     \<le> 10485760"
proof -
  have p: "plan 1048576 [(''a.bin'', 10485760)] = [9437184]"
    by (simp add: plan_def py_range_def total_size_def CHUNKSIZE_def)
  have "sampled_data (snd (sample_data default_args (\<lambda>path. Regular (replicate 10485760 7))
       [(''a.bin'', 10485760)])) = replicate 1048576 7"
    by (simp add: sample_data_def default_args_def sample_size_default walk_def start_def p
        process_file_def)
  with C7_bytes_read_within_file [where a = default_args and i = 0
      and files = "[(''a.bin'', 10485760)]" and fs = "\<lambda>path. Regular (replicate 10485760 7)"]
  show ?thesis by (simp add: default_args_def valid_default_sampling_ratio)
qed

section \<open>Which file takes which sampling point\<close>

lemma read_windows_clean:
  "read_windows f path ss cur fsz data rds ps = (data', rds', ps', None) \<Longrightarrow>
     ps' = dropWhile (\<lambda>p. p < cur + fsz) ps"
proof (induction ps arbitrary: data rds)
  case Nil
  then show ?case by simp
next
  case (Cons p ps)
  show ?case
  proof (cases "cur + fsz > p")
    case False
    with Cons.prems show ?thesis by auto
  next
    case True
    show ?thesis
    proof (cases "seek_read f (p - cur) ss")
      case (Inl e)
      with True Cons.prems show ?thesis by simp
    next
      case (Inr chunk)
      with True Cons.prems
      have "read_windows f path ss cur fsz (data @ chunk) (rds @ [(path, p - cur)]) ps
              = (data', rds', ps', None)"
        by simp
      from Cons.IH[OF this] True show ?thesis by simp
    qed
  qed
qed

lemma process_file_warnings:
  "\<exists>ws. warnings (process_file fs ss st entry) = warnings st @ ws"
proof (cases "sampling_points st")
  case Nil
  then show ?thesis by (simp add: process_file_def)
next
  case (Cons p ps)
  show ?thesis
  proof (cases "p \<ge> current_offset st + snd entry")
    case True
    with Cons show ?thesis by (simp add: process_file_def)
  next
    case False
    show ?thesis
    proof (cases "py_open (fs (fst entry))")
      case (Inl e)
      with False Cons show ?thesis by (simp add: process_file_def)
    next
      case (Inr f)
      obtain data' rds' ps' err where r:
        "read_windows f (fst entry) ss (current_offset st) (snd entry)
           (sampled_data st) (reads st) (p # ps) = (data', rds', ps', err)"
        by (metis prod_cases4)
      with False Cons Inr show ?thesis by (cases err) (simp_all add: process_file_def)
    qed
  qed
qed

lemma walk_warnings: "\<exists>ws. warnings (walk fs ss st files) = warnings st @ ws"
proof (induction files arbitrary: st)
  case Nil
  then show ?case by (simp add: walk_def)
next
  case (Cons entry files)
  have w: "walk fs ss st (entry # files) = walk fs ss (process_file fs ss st entry) files"
    by (simp add: walk_def)
  from process_file_warnings[of fs ss st entry] Cons.IH[of "process_file fs ss st entry"]
  show ?case unfolding w by auto
qed

lemma process_file_clean:
  assumes "warnings (process_file fs ss st entry) = warnings st"
  shows "sampling_points (process_file fs ss st entry)
           = dropWhile (\<lambda>p. p < current_offset st + snd entry) (sampling_points st)
     \<and> current_offset (process_file fs ss st entry) = current_offset st + snd entry"
proof (cases "sampling_points st")
  case Nil
  then show ?thesis by (simp add: process_file_def)
next
  case (Cons p ps)
  show ?thesis
  proof (cases "p \<ge> current_offset st + snd entry")
    case True
    with Cons show ?thesis by (simp add: process_file_def)
  next
    case False
    show ?thesis
    proof (cases "py_open (fs (fst entry))")
      case (Inl e)
      with False Cons assms show ?thesis by (simp add: process_file_def)
    next
      case (Inr f)
      obtain data' rds' ps' err where r:
        "read_windows f (fst entry) ss (current_offset st) (snd entry)
           (sampled_data st) (reads st) (p # ps) = (data', rds', ps', err)"
        by (metis prod_cases4)
      show ?thesis
      proof (cases err)
        case (Some e)
        with False Cons Inr r assms show ?thesis by (simp add: process_file_def)
      next
        case None
        from read_windows_clean[OF r[unfolded None]] None False Cons Inr r show ?thesis
          by (simp add: process_file_def Let_def del: read_windows.simps)
      qed
    qed
  qed
qed

lemma walk_split:
  "walk fs ss st files = walk fs ss (walk fs ss st (take i files)) (drop i files)"
  by (simp add: walk_def flip: foldl_append)

lemma before_no_warnings:
  assumes "warnings (walk fs ss (start ss files) files) = []"
  shows "warnings (before fs ss files i) = []"
proof -
  from walk_warnings[of fs ss "before fs ss files i" "drop i files"]
  obtain ws where "warnings (walk fs ss (before fs ss files i) (drop i files))
      = warnings (before fs ss files i) @ ws"
    by blast
  moreover have "walk fs ss (before fs ss files i) (drop i files) = walk fs ss (start ss files) files"
    unfolding before_def by (rule walk_split[symmetric])
  ultimately show ?thesis using assms by simp
qed

lemma dropWhile_twice:
  "a \<le> (b::nat) \<Longrightarrow> dropWhile (\<lambda>p. p < b) (dropWhile (\<lambda>p. p < a) xs) = dropWhile (\<lambda>p. p < b) xs"
  by (induction xs) auto

lemma total_size_take_Suc:
  "i < length files \<Longrightarrow> total_size (take (Suc i) files) = total_size (take i files) + snd (files ! i)"
  by (simp add: total_size_def take_Suc_conv_app_nth)

lemma before_clean:
  assumes "warnings (walk fs ss (start ss files) files) = []" and "i \<le> length files"
  shows "current_offset (before fs ss files i) = total_size (take i files)
     \<and> sampling_points (before fs ss files i)
          = dropWhile (\<lambda>p. p < total_size (take i files)) (plan ss files)"
  using assms(2)
proof (induction i)
  case 0
  then show ?case by (simp add: before_def walk_def start_def total_size_def)
next
  case (Suc i)
  then have i: "i < length files" by simp
  have "warnings (process_file fs ss (before fs ss files i) (files ! i)) = warnings (before fs ss files i)"
    using before_no_warnings[OF assms(1), of i] before_no_warnings[OF assms(1), of "Suc i"]
    by (simp add: before_Suc[OF i])
  from process_file_clean[OF this] Suc.IH i show ?case
    by (simp add: before_Suc[OF i] total_size_take_Suc dropWhile_twice)
qed

lemma take_length_dropWhile:
  "take (length xs - length (dropWhile P xs)) xs = takeWhile P xs"
proof -
  have "length xs - length (dropWhile P xs) = length (takeWhile P xs)"
    by (metis add_diff_cancel_right' length_append takeWhile_dropWhile_id)
  then show ?thesis by (metis append_eq_conv_conj takeWhile_dropWhile_id)
qed

lemma takeWhile_filter_sorted:
  "sorted xs \<Longrightarrow> \<forall>y\<in>set xs. a \<le> y \<Longrightarrow>
     takeWhile (\<lambda>p. p < b) xs = filter (\<lambda>p. a \<le> p \<and> p < (b::nat)) xs"
proof (induction xs)
  case Nil
  then show ?case by simp
next
  case (Cons x xs)
  show ?case
  proof (cases "x < b")
    case True
    with Cons show ?thesis by simp
  next
    case False
    with Cons.prems have "\<forall>y\<in>set xs. \<not> y < b" by auto
    then have "filter (\<lambda>p. a \<le> p \<and> p < b) xs = []" by (simp add: filter_empty_conv)
    with False show ?thesis by simp
  qed
qed

lemma takeWhile_dropWhile_filter:
  "sorted xs \<Longrightarrow>
     takeWhile (\<lambda>p. p < b) (dropWhile (\<lambda>p. p < a) xs) = filter (\<lambda>p. a \<le> p \<and> p < (b::nat)) xs"
proof (induction xs)
  case Nil
  then show ?case by simp
next
  case (Cons x xs)
  show ?case
  proof (cases "x < a")
    case True
    with Cons show ?thesis by simp
  next
    case False
    with Cons.prems have "\<forall>y\<in>set (x # xs). a \<le> y" by auto
    from takeWhile_filter_sorted[OF Cons.prems this] False show ?thesis by simp
  qed
qed

lemma plan_sorted: "sorted (plan ss files)" and plan_increasing: "sorted_wrt (<) (plan ss files)"
proof -
  have s: "sorted_wrt (\<lambda>a b. a + CHUNKSIZE \<le> b) (plan ss files)"
    unfolding plan_def by (rule py_range_spaced) (simp add: CHUNKSIZE_def)
  show "sorted (plan ss files)"
    by (rule sorted_wrt_mono_rel[OF _ s]) simp
  show "sorted_wrt (<) (plan ss files)"
    by (rule sorted_wrt_mono_rel[OF _ s]) (simp add: CHUNKSIZE_def)
qed

lemma consumed_clean:
  assumes "warnings (walk fs ss (start ss files) files) = []" and "i < length files"
  shows "consumed fs ss files i
    = filter (\<lambda>p. total_size (take i files) \<le> p \<and> p < total_size (take i files) + snd (files ! i))
        (plan ss files)"
proof -
  let ?a = "total_size (take i files)"
  let ?b = "total_size (take i files) + snd (files ! i)"
  have i: "sampling_points (before fs ss files i) = dropWhile (\<lambda>p. p < ?a) (plan ss files)"
    using before_clean[OF assms(1), of i] assms(2) by simp
  have "sampling_points (before fs ss files (Suc i)) = dropWhile (\<lambda>p. p < ?b) (plan ss files)"
    using before_clean[OF assms(1), of "Suc i"] assms(2) by (simp add: total_size_take_Suc)
  also have "\<dots> = dropWhile (\<lambda>p. p < ?b) (dropWhile (\<lambda>p. p < ?a) (plan ss files))"
    by (simp add: dropWhile_twice)
  finally have "consumed fs ss files i
      = takeWhile (\<lambda>p. p < ?b) (dropWhile (\<lambda>p. p < ?a) (plan ss files))"
    by (simp add: consumed_def Let_def i take_length_dropWhile)
  then show ?thesis by (simp add: takeWhile_dropWhile_filter plan_sorted)
qed


lemma py_range_less:
  assumes "0 < step" and "p \<in> set (py_range lo hi step)" shows "p < hi"
proof -
  define n where "n = (if lo < hi then (hi - lo - 1) div step + 1 else 0)"
  from assms(2) have "p \<in> (\<lambda>k. lo + k * step) ` {0..<n}"
    by (simp add: py_range_def n_def)
  then obtain k where kk: "k \<in> {0..<n}" and k: "p = lo + k * step" by blast
  from kk have kn: "k < n" by simp
  from kn have lt: "lo < hi" by (simp add: n_def split: if_splits)
  with kn have "k \<le> (hi - lo - 1) div step" by (simp add: n_def)
  then have "k * step \<le> (hi - lo - 1) div step * step" by (rule mult_le_mono1)
  also have "\<dots> \<le> hi - lo - 1" by simp
  finally show ?thesis using k lt by simp
qed

lemma plan_less_total: "p \<in> set (plan ss files) \<Longrightarrow> p < total_size files"
  unfolding plan_def by (rule py_range_less[of CHUNKSIZE]) (simp_all add: CHUNKSIZE_def)

lemma total_size_take_le: "total_size (take i files) \<le> total_size files"
proof -
  have "total_size files = total_size (take i files) + total_size (drop i files)"
    unfolding total_size_def by (metis append_take_drop_id map_append sum_list_append)
  then show ?thesis by simp
qed

lemma one_file_holds:
  "p < total_size files \<Longrightarrow>
     \<exists>!i. i < length files \<and> total_size (take i files) \<le> p
            \<and> p < total_size (take i files) + snd (files ! i)"
proof (induction files rule: rev_induct)
  case Nil
  then show ?case by (simp add: total_size_def)
next
  case (snoc e files)
  have t: "total_size (files @ [e]) = total_size files + snd e" by (simp add: total_size_def)
  show ?case
  proof (cases "p < total_size files")
    case True
    from snoc.IH[OF True] obtain i where i: "i < length files"
      "total_size (take i files) \<le> p" "p < total_size (take i files) + snd (files ! i)"
      and u: "\<And>j. j < length files \<Longrightarrow> total_size (take j files) \<le> p
              \<Longrightarrow> p < total_size (take j files) + snd (files ! j) \<Longrightarrow> j = i"
      by blast
    show ?thesis
    proof (rule ex1I[of _ i])
      show "i < length (files @ [e]) \<and> total_size (take i (files @ [e])) \<le> p
          \<and> p < total_size (take i (files @ [e])) + snd ((files @ [e]) ! i)"
        using i by (simp add: nth_append)
    next
      fix j
      assume j: "j < length (files @ [e]) \<and> total_size (take j (files @ [e])) \<le> p
          \<and> p < total_size (take j (files @ [e])) + snd ((files @ [e]) ! j)"
      show "j = i"
      proof (cases "j < length files")
        case True
        with j show ?thesis by (intro u) (simp_all add: nth_append)
      next
        case False
        with j have "j = length files" by simp
        with j True show ?thesis by simp
      qed
    qed
  next
    case False
    show ?thesis
    proof (rule ex1I[of _ "length files"])
      show "length files < length (files @ [e]) \<and> total_size (take (length files) (files @ [e])) \<le> p
          \<and> p < total_size (take (length files) (files @ [e])) + snd ((files @ [e]) ! length files)"
        using False snoc.prems t by simp
    next
      fix j
      assume j: "j < length (files @ [e]) \<and> total_size (take j (files @ [e])) \<le> p
          \<and> p < total_size (take j (files @ [e])) + snd ((files @ [e]) ! j)"
      show "j = length files"
      proof (rule ccontr)
        assume "j \<noteq> length files"
        with j have l: "j < length files" by simp
        with j have "p < total_size (take (Suc j) files)"
          by (simp add: total_size_take_Suc nth_append)
        with total_size_take_le[of "Suc j" files] False show False by simp
      qed
    qed
  qed
qed

lemma consumed_once:
  assumes "warnings (walk fs ss (start ss files) files) = []" and "p \<in> set (plan ss files)"
  shows "\<exists>!i. i < length files \<and> p \<in> set (consumed fs ss files i)"
proof -
  have "(i < length files \<and> p \<in> set (consumed fs ss files i))
      = (i < length files \<and> total_size (take i files) \<le> p
            \<and> p < total_size (take i files) + snd (files ! i))" for i
    using consumed_clean[OF assms(1), of i] assms(2) by auto
  with one_file_holds[OF plan_less_total[OF assms(2)]] show ?thesis by simp
qed

lemma plan_three_files:
  "plan 1048576 [(''f1'', 4194304), (''f2'', 4194304), (''f3'', 4194304)] = [9437184]"
  by (simp add: plan_def py_range_def total_size_def CHUNKSIZE_def)

lemma walk_three_files:
  "walk (\<lambda>path. Regular (replicate 4194304 7)) 1048576
     (start 1048576 [(''f1'', 4194304), (''f2'', 4194304), (''f3'', 4194304)])
     [(''f1'', 4194304), (''f2'', 4194304), (''f3'', 4194304)]
   = \<lparr>sampled_data = replicate 1048576 7, sampling_points = [], current_offset = 12582912,
      warnings = [], reads = [(''f3'', 1048576)]\<rparr>"
  by (simp add: walk_def start_def plan_three_files process_file_def)

lemma before_three_files:
  "before (\<lambda>path. Regular (replicate 4194304 7)) 1048576
     [(''f1'', 4194304), (''f2'', 4194304), (''f3'', 4194304)] 2
   = \<lparr>sampled_data = [], sampling_points = [9437184], current_offset = 8388608,
      warnings = [], reads = []\<rparr>"
  by (simp add: before_def walk_def start_def plan_three_files process_file_def numeral_2_eq_2)

lemma sample_three_files:
  "snd (sample_data default_args (\<lambda>path. Regular (replicate 4194304 7))
          [(''f1'', 4194304), (''f2'', 4194304), (''f3'', 4194304)])
     = \<lparr>sampled_data = replicate 1048576 7, sampling_points = [], current_offset = 12582912,
      warnings = [], reads = [(''f3'', 1048576)]\<rparr>"
  by (simp add: sample_data_def default_args_def sample_size_default walk_three_files)

text \<open>
  Claim C3, for the runs in which no read fails (no warning is logged): the sampling
  points are strictly increasing, each is taken by exactly one file, and the file of index
  \<open>i\<close> is reached with \<open>current_offset\<close> the sum of the sizes before it and takes the
  points \<open>p\<close> with \<open>current_offset \<le> p < current_offset + filesize\<close>. For three files of
  4 MiB with the default ratio (a chunk of 10 MiB, a sample size of 1 MiB) the only
  sampling point is 9 MiB, the third file is reached at offset 8 MiB and read once, at
  offset 1 MiB, and the sample is 1 MiB long.
\<close>

theorem C3_points_consumed_once:
  assumes "valid_sampling_ratio (sampling_ratio a)"
    and "warnings (snd (sample_data a fs files)) = []"
  shows "sorted_wrt (<) (plan (sample_size (sampling_ratio a)) files)
    \<and> (\<forall>p\<in>set (plan (sample_size (sampling_ratio a)) files).
          \<exists>!i. i < length files \<and> p \<in> set (consumed fs (sample_size (sampling_ratio a)) files i))
    \<and> (\<forall>i<length files.
          current_offset (before fs (sample_size (sampling_ratio a)) files i) = total_size (take i files)
          \<and> consumed fs (sample_size (sampling_ratio a)) files i
              = filter (\<lambda>p. total_size (take i files) \<le> p
                            \<and> p < total_size (take i files) + snd (files ! i))
                  (plan (sample_size (sampling_ratio a)) files))
    \<and> plan (sample_size default_sampling_ratio)
          [(''f1'', 4194304), (''f2'', 4194304), (''f3'', 4194304)] = [9437184]
    \<and> current_offset (before (\<lambda>path. Regular (replicate 4194304 7))
          (sample_size default_sampling_ratio)
          [(''f1'', 4194304), (''f2'', 4194304), (''f3'', 4194304)] 2) = 8388608
    \<and> reads (snd (sample_data default_args (\<lambda>path. Regular (replicate 4194304 7))
          [(''f1'', 4194304), (''f2'', 4194304), (''f3'', 4194304)])) = [(''f3'', 1048576)]
    \<and> length (sampled_data (snd (sample_data default_args (\<lambda>path. Regular (replicate 4194304 7))
          [(''f1'', 4194304), (''f2'', 4194304), (''f3'', 4194304)]))) = 1048576"
proof -
  let ?ss = "sample_size (sampling_ratio a)"
  have w: "warnings (walk fs ?ss (start ?ss files) files) = []"
    using assms(2) by (simp add: sample_data_def Let_def)
  have 1: "sorted_wrt (<) (plan ?ss files)" by (rule plan_increasing)
  have 2: "\<forall>p\<in>set (plan ?ss files). \<exists>!i. i < length files \<and> p \<in> set (consumed fs ?ss files i)"
    using consumed_once[OF w] by blast
  have 3: "\<forall>i<length files.
          current_offset (before fs ?ss files i) = total_size (take i files)
          \<and> consumed fs ?ss files i
              = filter (\<lambda>p. total_size (take i files) \<le> p
                            \<and> p < total_size (take i files) + snd (files ! i))
                  (plan ?ss files)"
    using before_clean[OF w] consumed_clean[OF w] by simp
  from 1 2 3 show ?thesis
    unfolding sample_three_files sample_size_default plan_three_files before_three_files by simp
qed


theorem C3_points_consumed_once_witness:
  "valid_sampling_ratio (sampling_ratio default_args)
   \<and> warnings (snd (sample_data default_args (\<lambda>path. Regular (replicate 4194304 7))
         [(''f1'', 4194304), (''f2'', 4194304), (''f3'', 4194304)])) = []
   \<and> consumed (\<lambda>path. Regular (replicate 4194304 7)) (sample_size (sampling_ratio default_args))
         [(''f1'', 4194304), (''f2'', 4194304), (''f3'', 4194304)] 2 = [9437184]"
proof -
  let ?fs = "\<lambda>path :: string. Regular (replicate 4194304 7)"
  let ?files = "[(''f1'', 4194304 :: nat), (''f2'', 4194304), (''f3'', 4194304)]"
  let ?ss = "sample_size (sampling_ratio default_args)"
  have v: "valid_sampling_ratio (sampling_ratio default_args)"
    by (simp add: default_args_def valid_default_sampling_ratio)
  have w: "warnings (snd (sample_data default_args ?fs ?files)) = []"
    by (simp add: sample_three_files)
  from C3_points_consumed_once [OF v w]
  have "\<forall>i<length ?files. consumed ?fs ?ss ?files i
              = filter (\<lambda>p. total_size (take i ?files) \<le> p
                            \<and> p < total_size (take i ?files) + snd (?files ! i))
                  (plan ?ss ?files)"
    by blast
  then have "consumed ?fs ?ss ?files 2
              = filter (\<lambda>p. total_size (take 2 ?files) \<le> p
                            \<and> p < total_size (take 2 ?files) + snd (?files ! 2))
                  (plan ?ss ?files)"
    by simp
  then have "consumed ?fs ?ss ?files 2 = [9437184]"
    by (simp add: default_args_def sample_size_default plan_three_files total_size_def)
  with v w show ?thesis by simp
qed

text \<open>
  Claim C3 as stated, for every inventory, fails when a file cannot be opened: the one
  sampling point of the inventory lies in the virtual range of its only file and is taken
  by no file.
\<close>

theorem C3_unreadable_file_counterexample:
  "plan (sample_size default_sampling_ratio) [(''a'', 10485760)] = [9437184]
   \<and> (0::nat) \<le> 9437184 \<and> (9437184::nat) < 0 + 10485760
   \<and> length [(''a'', 10485760 :: nat)] = 1
   \<and> consumed (\<lambda>path. Unopenable PermissionError) (sample_size default_sampling_ratio)
        [(''a'', 10485760)] 0 = []
   \<and> warnings (snd (sample_data default_args (\<lambda>path. Unopenable PermissionError)
        [(''a'', 10485760)])) = [(''a'', PermissionError)]"
proof -
  have p: "plan 1048576 [(''a'', 10485760)] = [9437184]"
    by (simp add: plan_def py_range_def total_size_def CHUNKSIZE_def)
  have c: "consumed (\<lambda>path. Unopenable PermissionError) 1048576 [(''a'', 10485760)] 0 = []"
    by (simp add: consumed_def before_def walk_def start_def p process_file_def)
  have w: "warnings (snd (sample_data default_args (\<lambda>path. Unopenable PermissionError)
        [(''a'', 10485760)])) = [(''a'', PermissionError)]"
    by (simp add: sample_data_def default_args_def sample_size_default walk_def start_def p
        process_file_def)
  from p c w show ?thesis by (simp add: sample_size_default)
qed

section \<open>A file that cannot be read\<close>

text \<open>
  Claim C2 on the code: when the first of two files cannot be opened, it contributes no
  byte, a warning is logged and the walk goes on, but \<open>current_offset\<close> is still 0 when the
  second file is reached, where the run without the error has 9961472; the second file
  is then read at offset 9437184 instead of 9961472.
\<close>

theorem C2_failed_file_not_counted:
  "current_offset (before (\<lambda>path. if path = ''a'' then Unopenable FileNotFoundError
                                  else Regular (replicate 10485760 7))
      (sample_size default_sampling_ratio) [(''a'', 9961472), (''b'', 10485760)] 1) = 0
   \<and> current_offset (before (\<lambda>path. if path = ''a'' then Regular (replicate 9961472 7)
                                  else Regular (replicate 10485760 7))
      (sample_size default_sampling_ratio) [(''a'', 9961472), (''b'', 10485760)] 1) = 9961472
   \<and> snd (sample_data default_args
        (\<lambda>path. if path = ''a'' then Unopenable FileNotFoundError
                 else Regular (replicate 10485760 7))
        [(''a'', 9961472), (''b'', 10485760)])
      = \<lparr>sampled_data = replicate 1048576 7, sampling_points = [19922944],
         current_offset = 10485760, warnings = [(''a'', FileNotFoundError)],
         reads = [(''b'', 9437184)]\<rparr>
   \<and> snd (sample_data default_args
        (\<lambda>path. if path = ''a'' then Regular (replicate 9961472 7)
                 else Regular (replicate 10485760 7))
        [(''a'', 9961472), (''b'', 10485760)])
      = \<lparr>sampled_data = replicate 1048576 7, sampling_points = [],
         current_offset = 20447232, warnings = [],
         reads = [(''a'', 9437184), (''b'', 9961472)]\<rparr>"
proof -
  have p: "plan 1048576 [(''a'', 9961472), (''b'', 10485760)] = [9437184, 19922944]"
    by (simp add: plan_def py_range_def total_size_def CHUNKSIZE_def)
  show ?thesis
    by (simp add: sample_size_default before_def sample_data_def default_args_def walk_def
        start_def p process_file_def replicate_add [symmetric])
qed

section \<open>The extrapolation\<close>

lemma estimate_defined:
  assumes "0 < original_size" and "0 < sample_len" and "0 < compressed_len"
  shows "estimate compressed_len sample_len original_size
           = Inr (spec_estimated_total compressed_len sample_len original_size)"
    and "0 < spec_estimated_total compressed_len sample_len original_size"
proof -
  have n: "0 < float_of_nat sample_len" using assms(2) by (rule float_of_nat_pos)
  have c: "0 < float_of_nat compressed_len" using assms(3) by (rule float_of_nat_pos)
  have o: "0 < float_of_nat original_size" using assms(1) by (rule float_of_nat_pos)
  from n c have "0 < float_of_nat compressed_len / float_of_nat sample_len" by simp
  then have q: "0 < fl_round (float_of_nat compressed_len / float_of_nat sample_len)"
    by (rule fl_round_pos)
  show "estimate compressed_len sample_len original_size
           = Inr (spec_estimated_total compressed_len sample_len original_size)"
    using assms(1) n by (simp add: estimate_def fdiv_def spec_estimated_total_def)
  from q o have "0 < fl_round (float_of_nat compressed_len / float_of_nat sample_len)
                       * float_of_nat original_size"
    by simp
  then show "0 < spec_estimated_total compressed_len sample_len original_size"
    unfolding spec_estimated_total_def fmul_def by (rule fl_round_pos)
qed

lemma ratio_defined:
  "0 < estimated_total \<Longrightarrow>
     ratio original_size estimated_total
       = Inr (spec_compression_ratio original_size estimated_total)"
  by (simp add: ratio_def fdiv_def spec_compression_ratio_def)

lemma extrapolation_example:
  "spec_estimated_total 250 1000 100000 = 25000" "spec_compression_ratio 100000 25000 = 4"
proof -
  have "fl_round (fl_round (fl_round 250 / fl_round 1000) * fl_round 100000) = 25000"
    unfolding fl_round_def by code_simp
  then show "spec_estimated_total 250 1000 100000 = 25000"
    by (simp add: spec_estimated_total_def float_of_nat_def fmul_def)
  have "fl_round (fl_round 100000 / 25000) = 4"
    unfolding fl_round_def by code_simp
  then show "spec_compression_ratio 100000 25000 = 4"
    by (simp add: spec_compression_ratio_def float_of_nat_def)
qed

text \<open>
  Claim C4: in every run with a positive original size and a non-empty sample (the
  compressed sample is never empty, gzip and bzip2 write a header), \<open>main\<close> ends
  normally and prints the estimate \<open>(compressed_len / sample_len) * original_size\<close> and
  the ratio \<open>original_size / estimated_total\<close>, computed in floats; for a sample of 1000
  bytes compressed to 250 and an original size of 100000 the estimate is 25000.0 and the
  ratio 4.0.
\<close>

theorem C4_extrapolation:
  assumes "0 < total_size files"
    and "sampled_data (snd (sample_data a fs files)) \<noteq> []"
    and "valid_sampling_ratio (sampling_ratio a)"
    and "compress (algorithm a) (level a) (sampled_data (snd (sample_data a fs files))) \<noteq> []"
  shows "(let sample = sampled_data (snd (sample_data a fs files));
              compressed_len = length (compress (algorithm a) (level a) sample);
              estimated_total =
                spec_estimated_total compressed_len (length sample) (total_size files)
          in main compress a fs files =
               (fst (sample_data a fs files) @ fst (compress_sampled_data compress a sample) @
                  [Rule, Original_size (total_size files),
                   Estimated_compressed_size estimated_total,
                   Compression_ratio (spec_compression_ratio (total_size files) estimated_total),
                   Rule],
                None))
    \<and> estimate 250 1000 100000 = Inr 25000 \<and> ratio 100000 25000 = Inr 4"
proof -
  obtain out1 st where s: "sample_data a fs files = (out1, st)" by (cases "sample_data a fs files")
  obtain out2 c where c: "compress_sampled_data compress a (sampled_data st) = (out2, c)"
    by (cases "compress_sampled_data compress a (sampled_data st)")
  have cl: "c = length (compress (algorithm a) (level a) (sampled_data st))"
    using c by (auto simp add: compress_sampled_data_def Let_def)
  have n: "0 < length (sampled_data st)" using assms(2) s by simp
  have cp: "0 < c" using assms(4) s cl by simp
  note e = estimate_defined[OF assms(1) n cp]
  have "main compress a fs files =
     (out1 @ out2 @
        [Rule, Original_size (total_size files),
         Estimated_compressed_size (spec_estimated_total c (length (sampled_data st)) (total_size files)),
         Compression_ratio (spec_compression_ratio (total_size files)
           (spec_estimated_total c (length (sampled_data st)) (total_size files))),
         Rule],
      None)"
    by (simp add: main_def s c e(1) ratio_defined[OF e(2)] Let_def)
  moreover have "estimate 250 1000 100000 = Inr 25000"
    using estimate_defined(1)[of 100000 1000 250] by (simp add: extrapolation_example)
  moreover have "ratio 100000 25000 = Inr 4"
    using ratio_defined[of 25000 100000] by (simp add: extrapolation_example)
  ultimately show ?thesis using s c cl by (simp add: Let_def)
qed

lemma sample_one_file:
  "snd (sample_data default_args (\<lambda>path. Regular (replicate 10485760 7)) [(''a.bin'', 10485760)])
     = \<lparr>sampled_data = replicate 1048576 7, sampling_points = [], current_offset = 10485760,
        warnings = [], reads = [(''a.bin'', 9437184)]\<rparr>"
proof -
  have p: "plan 1048576 [(''a.bin'', 10485760)] = [9437184]"
    by (simp add: plan_def py_range_def total_size_def CHUNKSIZE_def)
  show ?thesis
    by (simp add: sample_data_def default_args_def sample_size_default walk_def start_def p
        process_file_def)
qed

lemma extrapolation_one_file:
  "spec_estimated_total 262144 1048576 10485760 = 2621440"
  "spec_compression_ratio 10485760 2621440 = 4"
proof -
  have "fl_round (fl_round (fl_round 262144 / fl_round 1048576) * fl_round 10485760) = 2621440"
    unfolding fl_round_def by code_simp
  then show "spec_estimated_total 262144 1048576 10485760 = 2621440"
    by (simp add: spec_estimated_total_def float_of_nat_def fmul_def)
  have "fl_round (fl_round 10485760 / 2621440) = 4"
    unfolding fl_round_def by code_simp
  then show "spec_compression_ratio 10485760 2621440 = 4"
    by (simp add: spec_compression_ratio_def float_of_nat_def)
qed

theorem C4_extrapolation_witness:
  "0 < total_size [(''a.bin'', 10485760)]
   \<and> valid_sampling_ratio (sampling_ratio default_args)
   \<and> sampled_data (snd (sample_data default_args (\<lambda>path. Regular (replicate 10485760 7))
        [(''a.bin'', 10485760)])) \<noteq> []
   \<and> take 262144 (sampled_data (snd (sample_data default_args
        (\<lambda>path. Regular (replicate 10485760 7)) [(''a.bin'', 10485760)]))) \<noteq> []
   \<and> main (\<lambda>alg lvl d. take 262144 d) default_args (\<lambda>path. Regular (replicate 10485760 7))
        [(''a.bin'', 10485760)]
      = ([Rule, Original_size 10485760, Estimated_compressed_size 2621440,
          Compression_ratio 4, Rule], None)"
proof -
  have t: "total_size [(''a.bin'', 10485760)] = 10485760" by (simp add: total_size_def)
  have o: "fst (sample_data default_args (\<lambda>path. Regular (replicate 10485760 7))
        [(''a.bin'', 10485760)]) = []"
    by (simp add: sample_data_def default_args_def Let_def)
  have v: "verbose default_args = False" by (simp add: default_args_def)
  from C4_extrapolation [where files = "[(''a.bin'', 10485760)]" and a = default_args
      and fs = "\<lambda>path. Regular (replicate 10485760 7)" and compress = "\<lambda>alg lvl d. take 262144 d"]
  show ?thesis
    by (simp add: sample_one_file t o v compress_sampled_data_def extrapolation_one_file)
      (simp add: default_args_def valid_default_sampling_ratio)
qed

section \<open>The two samplers\<close>

lemma read_windows_ec_sim:
  "read_windows_ec f ss cur fsz data ps =
     (case read_windows f path ss cur fsz data rds ps of
        (data', rds', ps', err) \<Rightarrow>
          (case err of None \<Rightarrow> Inr (data', ps') | Some e \<Rightarrow> Inl e))"
proof (induction ps arbitrary: data rds)
  case Nil
  then show ?case by simp
next
  case (Cons p ps)
  show ?case
  proof (cases "cur + fsz > p")
    case False
    then show ?thesis by simp
  next
    case True
    show ?thesis
    proof (cases "seek_read f (p - cur) ss")
      case (Inl e)
      with True show ?thesis by simp
    next
      case (Inr chunk)
      with True Cons.IH[of "data @ chunk" "rds @ [(path, p - cur)]"] show ?thesis by simp
    qed
  qed
qed

lemma walk_Cons: "walk fs ss st (entry # files) = walk fs ss (process_file fs ss st entry) files"
  by (simp add: walk_def)

lemma walk_ec_step:
  assumes "warnings (process_file fs ss st (filepath, filesize)) = warnings st"
  shows "walk_ec fs ss (sampled_data st) (sampling_points st) (current_offset st)
           ((filepath, filesize) # rest)
       = walk_ec fs ss (sampled_data (process_file fs ss st (filepath, filesize)))
           (sampling_points (process_file fs ss st (filepath, filesize)))
           (current_offset (process_file fs ss st (filepath, filesize))) rest"
proof (cases "sampling_points st")
  case Nil
  then show ?thesis by (simp add: process_file_def)
next
  case (Cons p ps)
  show ?thesis
  proof (cases "p \<ge> current_offset st + filesize")
    case True
    with Cons show ?thesis by (simp add: process_file_def)
  next
    case False
    show ?thesis
    proof (cases "py_open (fs filepath)")
      case (Inl e)
      with False Cons assms show ?thesis by (simp add: process_file_def)
    next
      case (Inr f)
      obtain data' rds' ps' err where r:
        "read_windows f filepath ss (current_offset st) filesize
           (sampled_data st) (reads st) (p # ps) = (data', rds', ps', err)"
        by (metis prod_cases4)
      show ?thesis
      proof (cases err)
        case (Some e)
        with False Cons Inr r assms show ?thesis by (simp add: process_file_def)
      next
        case None
        have "read_windows_ec f ss (current_offset st) filesize (sampled_data st) (p # ps)
                = Inr (data', ps')"
          using read_windows_ec_sim[of f ss "current_offset st" filesize "sampled_data st" "p # ps"
              filepath "reads st"] r None
          by (simp del: read_windows.simps read_windows_ec.simps)
        with None False Cons Inr r show ?thesis
          by (simp add: process_file_def Let_def del: read_windows.simps read_windows_ec.simps)
      qed
    qed
  qed
qed

lemma walk_ec_sim:
  "warnings (walk fs ss st files) = warnings st \<Longrightarrow>
     walk_ec fs ss (sampled_data st) (sampling_points st) (current_offset st) files
       = Inr (sampled_data (walk fs ss st files))"
proof (induction files arbitrary: st)
  case Nil
  then show ?case by (simp add: walk_def)
next
  case (Cons entry files)
  obtain filepath filesize where e: "entry = (filepath, filesize)" by (cases entry)
  let ?st = "process_file fs ss st entry"
  from process_file_warnings[of fs ss st entry] obtain ws1
    where w1: "warnings ?st = warnings st @ ws1" by blast
  from walk_warnings[of fs ss ?st files] obtain ws2
    where w2: "warnings (walk fs ss ?st files) = warnings ?st @ ws2" by blast
  from Cons.prems w1 w2 have "ws1 = []" "ws2 = []" by (simp_all add: walk_Cons)
  then have c1: "warnings ?st = warnings st" and c2: "warnings (walk fs ss ?st files) = warnings ?st"
    using w1 w2 by simp_all
  from walk_ec_step[OF c1[unfolded e]] Cons.IH[OF c2] show ?case
    by (simp add: e walk_Cons)
qed

text \<open>
  Claim C10: in every run of \<open>zip-sizer.py\<close> with the sampling ratio 0.1 in which no read
  fails (no warning is logged), \<open>sample_data\<close> of \<open>estimate-compression.py\<close> with its
  default chunk size and sample size returns, on the same inventory and file system, the
  same bytes.
\<close>

theorem C10_samplers_agree:
  assumes "sampling_ratio a = default_sampling_ratio"
    and "warnings (snd (sample_data a fs files)) = []"
  shows "sample_data_ec fs files default_chunk_size default_sample_size
           = Inr (sampled_data (snd (sample_data a fs files)))"
proof -
  have ss: "sample_size (sampling_ratio a) = default_sample_size"
    using assms(1) by (simp add: sample_size_default default_sample_size_def)
  have c: "default_chunk_size = CHUNKSIZE" by (simp add: default_chunk_size_def CHUNKSIZE_def)
  let ?st = "start default_sample_size files"
  have w: "warnings (walk fs default_sample_size ?st files) = warnings ?st"
    using assms(2) by (simp add: sample_data_def Let_def ss start_def)
  from walk_ec_sim[OF w] show ?thesis
    by (simp add: sample_data_ec_def sample_data_def Let_def ss c start_def plan_def)
qed

theorem C10_samplers_agree_witness:
  "sampling_ratio default_args = default_sampling_ratio
   \<and> warnings (snd (sample_data default_args (\<lambda>path. Regular (replicate 10485760 7))
        [(''a.bin'', 10485760)])) = []
   \<and> sample_data_ec (\<lambda>path. Regular (replicate 10485760 7)) [(''a.bin'', 10485760)]
        default_chunk_size default_sample_size = Inr (replicate 1048576 7)"
  using C10_samplers_agree [where a = default_args and files = "[(''a.bin'', 10485760)]"
      and fs = "\<lambda>path. Regular (replicate 10485760 7)"]
  by (simp add: sample_one_file) (simp add: default_args_def)

end
